theory Spec2Isabelle
  imports Main "HOL-Library.Word" "HOL-Library.Monad_Syntax"
begin

section \<open>The IR data model\<close>

text \<open>
  The pass in \<^verbatim>\<open>src/llvm/MergeCallsPass.h\<close> works on LLVM IR objects through
  pointers.  A pointer is modelled by its address: \<open>bptr\<close> for \<^verbatim>\<open>BasicBlock *\<close>,
  \<open>iptr\<close> for \<^verbatim>\<open>Instruction *\<close> and \<open>fptr\<close> for \<^verbatim>\<open>Function *\<close>.  Addresses are
  natural numbers, so that an address-keyed \<^verbatim>\<open>std::map\<close> iterates in the order of \<open><\<close>.
\<close>

type_synonym bptr = nat
type_synonym iptr = nat
type_synonym fptr = nat

text \<open>A \<^verbatim>\<open>Value\<close>: the result of an instruction, an argument of the enclosing
  function, a 32-bit integer constant, or any other constant or global.\<close>

datatype val = VInstr iptr | VArgument nat | VConstInt "32 word" | VOther nat

text \<open>The called operand of a \<^verbatim>\<open>CallInst\<close>: a function (direct call), some other
  value (indirect call, \<^verbatim>\<open>getCalledFunction() == nullptr\<close>) or inline assembly.\<close>

datatype callee = Direct fptr | Indirect val | InlineAsm nat

datatype ikind =
    Call callee "val list"
  | PHI "(val \<times> bptr) list"
  | Br bptr
  | Switch val bptr "(32 word \<times> bptr) list"
  | Unreachable
  | OtherTerm "val list" "bptr list"
  | Other "val list"

datatype instr = Instr (iid: iptr) (kind: ikind)

text \<open>A basic block is its address with its instruction list; a function is the list of
  its blocks in function order.\<close>

type_synonym block = "bptr \<times> instr list"
type_synonym func = "block list"

definition bids :: "func \<Rightarrow> bptr list" where
  "bids F = map fst F"

definition instrs :: "func \<Rightarrow> instr list" where
  "instrs F = concat (map snd F)"

definition iids :: "func \<Rightarrow> iptr list" where
  "iids F = map iid (instrs F)"

fun isCallInst :: "ikind \<Rightarrow> bool" where
  "isCallInst (Call _ _) = True"
| "isCallInst _ = False"

fun isInlineAsm :: "ikind \<Rightarrow> bool" where
  "isInlineAsm (Call (InlineAsm _) _) = True"
| "isInlineAsm _ = False"

fun getCalledFunction :: "ikind \<Rightarrow> fptr option" where
  "getCalledFunction (Call (Direct f) _) = Some f"
| "getCalledFunction _ = None"

fun isPHI :: "ikind \<Rightarrow> bool" where
  "isPHI (PHI _) = True"
| "isPHI _ = False"

fun isTerminator :: "ikind \<Rightarrow> bool" where
  "isTerminator (Br _) = True"
| "isTerminator (Switch _ _ _) = True"
| "isTerminator Unreachable = True"
| "isTerminator (OtherTerm _ _) = True"
| "isTerminator _ = False"

fun successors :: "ikind \<Rightarrow> bptr list" where
  "successors (Br t) = [t]"
| "successors (Switch _ d cs) = d # map snd cs"
| "successors (OtherTerm _ ts) = ts"
| "successors _ = []"

text \<open>\<^verbatim>\<open>BasicBlock::getTerminator\<close>: the last instruction when it is a terminator.\<close>

definition getTerminator :: "instr list \<Rightarrow> instr option" where
  "getTerminator is = (if is \<noteq> [] \<and> isTerminator (kind (last is)) then Some (last is) else None)"

text \<open>\<^verbatim>\<open>BasicBlock::getFirstNonPHI\<close>: null when the block holds PHI nodes only.\<close>

fun getFirstNonPHI :: "instr list \<Rightarrow> instr option" where
  "getFirstNonPHI [] = None"
| "getFirstNonPHI (i # is) = (if isPHI (kind i) then getFirstNonPHI is else Some i)"

text \<open>\<^verbatim>\<open>Instruction::getParent\<close>, \<^verbatim>\<open>getNextNode\<close>, \<^verbatim>\<open>getPrevNode\<close> and the lookup of
  the instruction object behind a pointer.\<close>

fun getParent :: "func \<Rightarrow> iptr \<Rightarrow> bptr option" where
  "getParent [] c = None"
| "getParent ((b, is) # F) c = (if c \<in> iid ` set is then Some b else getParent F c)"

fun getInstr :: "instr list \<Rightarrow> iptr \<Rightarrow> instr option" where
  "getInstr [] c = None"
| "getInstr (i # is) c = (if iid i = c then Some i else getInstr is c)"

fun getNextNode :: "instr list \<Rightarrow> iptr \<Rightarrow> iptr option" where
  "getNextNode [] c = None"
| "getNextNode [i] c = None"
| "getNextNode (i # j # is) c = (if iid i = c then Some (iid j) else getNextNode (j # is) c)"

fun getPrevNode :: "instr list \<Rightarrow> iptr \<Rightarrow> iptr option" where
  "getPrevNode [] c = None"
| "getPrevNode [i] c = None"
| "getPrevNode (i # j # is) c = (if iid j = c then Some (iid i) else getPrevNode (j # is) c)"

text \<open>\<^verbatim>\<open>CallInst::getArgOperand\<close> asserts that the index is in range.\<close>

definition getArgOperand :: "func \<Rightarrow> iptr \<Rightarrow> nat \<Rightarrow> val option" where
  "getArgOperand F c n =
     (case getInstr (instrs F) c of
        Some (Instr _ (Call _ args)) \<Rightarrow> (if n < length args then Some (args ! n) else None)
      | _ \<Rightarrow> None)"

subsection \<open>Mutating primitives of the IR library\<close>

definition updBlock :: "bptr \<Rightarrow> (instr list \<Rightarrow> instr list) \<Rightarrow> func \<Rightarrow> func" where
  "updBlock b f F = map (\<lambda>(b', is). if b' = b then (b', f is) else (b', is)) F"

text \<open>Creating an instruction with an \<^verbatim>\<open>InsertAtEnd\<close> block appends it to that block.\<close>

definition appendInstr :: "bptr \<Rightarrow> instr \<Rightarrow> func \<Rightarrow> func" where
  "appendInstr b i F = updBlock b (\<lambda>is. is @ [i]) F"

text \<open>\<^verbatim>\<open>Instruction::eraseFromParent\<close> unlinks the instruction at that address.\<close>

definition eraseFromParent :: "iptr \<Rightarrow> func \<Rightarrow> func" where
  "eraseFromParent c F = map (\<lambda>(b, is). (b, filter (\<lambda>i. iid i \<noteq> c) is)) F"

fun insertInstrBefore :: "iptr \<Rightarrow> instr \<Rightarrow> instr list \<Rightarrow> instr list" where
  "insertInstrBefore pos new [] = []"
| "insertInstrBefore pos new (i # is) =
     (if iid i = pos then new # i # is else i # insertInstrBefore pos new is)"

text \<open>Creating an instruction with an \<^verbatim>\<open>InsertBefore\<close> instruction.\<close>

definition insertBefore :: "iptr \<Rightarrow> instr \<Rightarrow> func \<Rightarrow> func" where
  "insertBefore pos new F = map (\<lambda>(b, is). (b, insertInstrBefore pos new is)) F"

text \<open>\<^verbatim>\<open>Instruction::moveBefore\<close>: unlink the instruction and link it in front of
  \<open>pos\<close>.\<close>

definition moveBefore :: "iptr \<Rightarrow> iptr \<Rightarrow> func \<Rightarrow> func option" where
  "moveBefore c pos F =
     (case getInstr (instrs F) c of
        None \<Rightarrow> None
      | Some ci \<Rightarrow> Some (insertBefore pos ci (eraseFromParent c F)))"

text \<open>\<^verbatim>\<open>BasicBlock::Create(ctx, "", F, nullptr)\<close> allocates a block and appends it to the
  function.  The allocator \<open>nb\<close> picks the address from the live block addresses.\<close>

definition createBlock :: "(bptr list \<Rightarrow> bptr) \<Rightarrow> func \<Rightarrow> bptr \<times> func" where
  "createBlock nb F = (let b = nb (bids F) in (b, F @ [(b, [])]))"

fun insertBlockAfter :: "bptr \<Rightarrow> block \<Rightarrow> func \<Rightarrow> func" where
  "insertBlockAfter P new [] = []"
| "insertBlockAfter P new ((b, is) # F) =
     (if b = P then (b, is) # new # F else (b, is) # insertBlockAfter P new F)"

text \<open>The PHI nodes at the head of a block that name \<open>old\<close> as an incoming block are
  redirected to \<open>new\<close>.\<close>

fun replacePhiUsesWith :: "bptr \<Rightarrow> bptr \<Rightarrow> instr list \<Rightarrow> instr list" where
  "replacePhiUsesWith old new [] = []"
| "replacePhiUsesWith old new (i # is) =
     (case kind i of
        PHI inc \<Rightarrow> Instr (iid i) (PHI (map (\<lambda>(v, b). (v, if b = old then new else b)) inc))
                     # replacePhiUsesWith old new is
      | _ \<Rightarrow> i # is)"

text \<open>\<^verbatim>\<open>BasicBlock::replaceSuccessorsPhiUsesWith\<close>, over the successors \<open>ss\<close> of the
  terminator.  Redirecting twice is redirecting once, so each successor block is
  visited once.\<close>

definition replaceSuccessorsPhiUsesWith :: "bptr \<Rightarrow> bptr \<Rightarrow> bptr list \<Rightarrow> func \<Rightarrow> func" where
  "replaceSuccessorsPhiUsesWith old new ss F =
     map (\<lambda>(b, is). (b, if b \<in> set ss then replacePhiUsesWith old new is else is)) F"

text \<open>
  \<^verbatim>\<open>BasicBlock::splitBasicBlock(I, "")\<close>: the block must have a terminator and \<open>I\<close>
  must be one of its instructions.  The instructions from \<open>I\<close> on move to a new block
  placed right after the old one, the old block gets a branch to the new block, and the
  PHI nodes of the successors of the new block are told that control now comes from it.
\<close>

definition splitBasicBlock ::
  "(bptr list \<Rightarrow> bptr) \<Rightarrow> (iptr list \<Rightarrow> iptr) \<Rightarrow> bptr \<Rightarrow> iptr \<Rightarrow> func \<Rightarrow> (bptr \<times> func) option" where
  "splitBasicBlock nb ni P n F =
     (case map_of F P of
        None \<Rightarrow> None
      | Some is \<Rightarrow>
          (case getTerminator is of
             None \<Rightarrow> None
           | Some t \<Rightarrow>
               if n \<notin> iid ` set is then None
               else
                 let New = nb (bids F);
                     F1 = insertBlockAfter P (New, dropWhile (\<lambda>i. iid i \<noteq> n) is)
                            (updBlock P (takeWhile (\<lambda>i. iid i \<noteq> n)) F);
                     F2 = appendInstr P (Instr (ni (iids F1)) (Br New)) F1;
                     F3 = replaceSuccessorsPhiUsesWith P New (successors (kind t)) F2
                 in Some (New, F3)))"

text \<open>\<^verbatim>\<open>Value::replaceAllUsesWith\<close>: every operand that is the result of instruction
  \<open>c\<close> becomes the result of instruction \<open>u\<close>.\<close>

definition substV :: "iptr \<Rightarrow> iptr \<Rightarrow> val \<Rightarrow> val" where
  "substV c u v = (if v = VInstr c then VInstr u else v)"

fun mapCallee :: "(val \<Rightarrow> val) \<Rightarrow> callee \<Rightarrow> callee" where
  "mapCallee g (Indirect v) = Indirect (g v)"
| "mapCallee g (Direct f) = Direct f"
| "mapCallee g (InlineAsm a) = InlineAsm a"

fun mapOperands :: "(val \<Rightarrow> val) \<Rightarrow> ikind \<Rightarrow> ikind" where
  "mapOperands g (Call cal args) = Call (mapCallee g cal) (map g args)"
| "mapOperands g (PHI inc) = PHI (map (\<lambda>(v, b). (g v, b)) inc)"
| "mapOperands g (Br t) = Br t"
| "mapOperands g (Switch v d cs) = Switch (g v) d cs"
| "mapOperands g Unreachable = Unreachable"
| "mapOperands g (OtherTerm ops ts) = OtherTerm (map g ops) ts"
| "mapOperands g (Other ops) = Other (map g ops)"

definition mapInstr :: "(ikind \<Rightarrow> ikind) \<Rightarrow> instr \<Rightarrow> instr" where
  "mapInstr f i = Instr (iid i) (f (kind i))"

definition replaceAllUsesWith :: "iptr \<Rightarrow> iptr \<Rightarrow> func \<Rightarrow> func" where
  "replaceAllUsesWith c u F =
     map (\<lambda>(b, is). (b, map (mapInstr (mapOperands (substV c u))) is)) F"

text \<open>\<^verbatim>\<open>PHINode::addIncoming\<close> and \<^verbatim>\<open>SwitchInst::addCase\<close> extend the node at the
  given address.\<close>

fun addIncomingK :: "val \<Rightarrow> bptr \<Rightarrow> ikind \<Rightarrow> ikind" where
  "addIncomingK v b (PHI inc) = PHI (inc @ [(v, b)])"
| "addIncomingK v b k = k"

fun addCaseK :: "32 word \<Rightarrow> bptr \<Rightarrow> ikind \<Rightarrow> ikind" where
  "addCaseK n b (Switch v d cs) = Switch v d (cs @ [(n, b)])"
| "addCaseK n b k = k"

definition updInstr :: "iptr \<Rightarrow> (ikind \<Rightarrow> ikind) \<Rightarrow> func \<Rightarrow> func" where
  "updInstr p f F =
     map (\<lambda>(b, is). (b, map (\<lambda>i. if iid i = p then mapInstr f i else i) is)) F"

definition addIncoming :: "iptr \<Rightarrow> val \<Rightarrow> bptr \<Rightarrow> func \<Rightarrow> func" where
  "addIncoming p v b F = updInstr p (addIncomingK v b) F"

definition addCase :: "iptr \<Rightarrow> 32 word \<Rightarrow> bptr \<Rightarrow> func \<Rightarrow> func" where
  "addCase s n b F = updInstr s (addCaseK n b) F"

text \<open>A \<^verbatim>\<open>std::map\<close> keyed by addresses: an association list kept sorted by key, so
  that iterating the map is reading the list.  \<open>map_set k v m\<close> is \<^verbatim>\<open>m[k] = v\<close>.\<close>

fun map_set :: "nat \<Rightarrow> 'v \<Rightarrow> (nat \<times> 'v) list \<Rightarrow> (nat \<times> 'v) list" where
  "map_set k v [] = [(k, v)]"
| "map_set k v ((k', v') # m) =
     (if k < k' then (k, v) # (k', v') # m
      else if k = k' then (k, v) # m
      else (k', v') # map_set k v m)"

section \<open>The pass\<close>

subsection \<open>getUnreachableBlock\<close>

text \<open>The scan of lines 27-40.  The outer \<open>None\<close> is the failed assertion of line 32 (a
  block whose single instruction is a PHI node); \<open>Some None\<close> is a scan that found
  nothing.\<close>

fun findUnreachableBlock :: "func \<Rightarrow> bptr option option" where
  "findUnreachableBlock [] = Some None"
| "findUnreachableBlock ((b, is) # F) =
     (if length is = 1 then
        (case getFirstNonPHI is of
           None \<Rightarrow> None
         | Some i \<Rightarrow> if kind i = Unreachable then Some (Some b) else findUnreachableBlock F)
      else findUnreachableBlock F)"

definition getUnreachableBlock ::
  "(bptr list \<Rightarrow> bptr) \<Rightarrow> (iptr list \<Rightarrow> iptr) \<Rightarrow> func \<Rightarrow> (bptr \<times> func) option" where
  "getUnreachableBlock nb ni F =
     (case findUnreachableBlock F of
        None \<Rightarrow> None
      | Some (Some b) \<Rightarrow> Some (b, F)
      | Some None \<Rightarrow>
          let (unreachableBlock, F1) = createBlock nb F
          in Some (unreachableBlock,
                   appendInstr unreachableBlock (Instr (ni (iids F1)) Unreachable) F1))"

subsection \<open>mergeCallSites\<close>

text \<open>Lines 61-69: the call sites of \<open>Target\<close>, in function order.\<close>

definition isCallSiteOf :: "fptr \<Rightarrow> instr \<Rightarrow> bool" where
  "isCallSiteOf Target i \<longleftrightarrow>
     isCallInst (kind i) \<and> \<not> isInlineAsm (kind i) \<and> getCalledFunction (kind i) = Some Target"

definition collectCallSites :: "func \<Rightarrow> fptr \<Rightarrow> iptr list" where
  "collectCallSites F Target = map iid (filter (isCallSiteOf Target) (instrs F))"

text \<open>Lines 85-98, the body of the splitting loop for one call site \<open>C\<close>.  The state is
  the function with the two maps \<^verbatim>\<open>CallSiteToOrigParent\<close> and \<^verbatim>\<open>CallSiteToRet\<close>.\<close>

type_synonym split_state = "func \<times> (iptr \<rightharpoonup> bptr) \<times> (bptr \<times> bptr) list"

definition splitCallSite ::
  "(bptr list \<Rightarrow> bptr) \<Rightarrow> (iptr list \<Rightarrow> iptr) \<Rightarrow> bptr \<Rightarrow> iptr \<Rightarrow> split_state \<Rightarrow> split_state option" where
  "splitCallSite nb ni CallBlock C st =
     (case st of (F, CallSiteToOrigParent, CallSiteToRet) \<Rightarrow>
      do {
        ParentBlock \<leftarrow> getParent F C;
        pis \<leftarrow> map_of F ParentBlock;
        next \<leftarrow> getNextNode pis C;
        (ReturnBlock, F1) \<leftarrow> splitBasicBlock nb ni ParentBlock next F;
        ris \<leftarrow> map_of F1 ReturnBlock;
        pos \<leftarrow> getFirstNonPHI ris;
        F2 \<leftarrow> moveBefore C (iid pos) F1;
        let B = ni (iids F2);
        let F3 = appendInstr ParentBlock (Instr B (Br CallBlock)) F2;
        pis3 \<leftarrow> map_of F3 ParentBlock;
        prev \<leftarrow> getPrevNode pis3 B;
        Some (eraseFromParent prev F3,
              CallSiteToOrigParent(C \<mapsto> ParentBlock),
              map_set ParentBlock ReturnBlock CallSiteToRet)
      })"

fun splitLoop ::
  "(bptr list \<Rightarrow> bptr) \<Rightarrow> (iptr list \<Rightarrow> iptr) \<Rightarrow> bptr \<Rightarrow> iptr list \<Rightarrow> split_state \<Rightarrow> split_state option" where
  "splitLoop nb ni CallBlock [] st = Some st"
| "splitLoop nb ni CallBlock (C # CallSites) st =
     (case splitCallSite nb ni CallBlock C st of
        None \<Rightarrow> None
      | Some st' \<Rightarrow> splitLoop nb ni CallBlock CallSites st')"

text \<open>Lines 106-111: the incoming list of the PHI node of argument \<open>argCtr\<close>, one entry
  per call site.\<close>

fun argIncoming :: "func \<Rightarrow> (iptr \<rightharpoonup> bptr) \<Rightarrow> nat \<Rightarrow> iptr list \<Rightarrow> (val \<times> bptr) list option" where
  "argIncoming F OP argCtr [] = Some []"
| "argIncoming F OP argCtr (C # CallSites) =
     do {
       v \<leftarrow> getArgOperand F C argCtr;
       P \<leftarrow> OP C;
       inc \<leftarrow> argIncoming F OP argCtr CallSites;
       Some ((v, P) # inc)
     }"

text \<open>Lines 101-116: one PHI node per parameter of \<open>Target\<close>, appended to the call block;
  \<open>CallArgs\<close> collects the nodes.  \<open>n\<close> counts the parameters still to do.\<close>

fun argPhiLoop ::
  "(iptr list \<Rightarrow> iptr) \<Rightarrow> bptr \<Rightarrow> iptr list \<Rightarrow> (iptr \<rightharpoonup> bptr) \<Rightarrow> nat \<Rightarrow> nat \<Rightarrow> func \<times> val list
     \<Rightarrow> (func \<times> val list) option" where
  "argPhiLoop ni CallBlock CallSites OP argCtr 0 st = Some st"
| "argPhiLoop ni CallBlock CallSites OP argCtr (Suc n) (F, CallArgs) =
     (case argIncoming F OP argCtr CallSites of
        None \<Rightarrow> None
      | Some inc \<Rightarrow>
          let ArgNode = ni (iids F)
          in argPhiLoop ni CallBlock CallSites OP (Suc argCtr) n
               (appendInstr CallBlock (Instr ArgNode (PHI inc)) F, CallArgs @ [VInstr ArgNode]))"

text \<open>Lines 122-127.\<close>

fun replaceLoop :: "iptr \<Rightarrow> iptr list \<Rightarrow> func \<Rightarrow> func" where
  "replaceLoop UnifiedCall [] F = F"
| "replaceLoop UnifiedCall (C # CallSites) F =
     replaceLoop UnifiedCall CallSites (eraseFromParent C (replaceAllUsesWith C UnifiedCall F))"

text \<open>Lines 137-143: the iteration over \<^verbatim>\<open>CallSiteToRet\<close>, in key order.  The counter is
  an \<^verbatim>\<open>int\<close> turned into a 32-bit constant.\<close>

fun switchLoop :: "iptr \<Rightarrow> iptr \<Rightarrow> nat \<Rightarrow> (bptr \<times> bptr) list \<Rightarrow> func \<Rightarrow> func" where
  "switchLoop WhereFromNode SwitchBackInstr switchCtr [] F = F"
| "switchLoop WhereFromNode SwitchBackInstr switchCtr ((P, R) # KVs) F =
     switchLoop WhereFromNode SwitchBackInstr (Suc switchCtr) KVs
       (addCase SwitchBackInstr (of_nat switchCtr) R
          (addIncoming WhereFromNode (VConstInt (of_nat switchCtr)) P F))"

text \<open>
  \<open>mergeCallSites\<close> returns the new function with the returned \<^verbatim>\<open>CallInst *\<close> (\<open>None\<close>
  for \<^verbatim>\<open>nullptr\<close>); the outer \<open>None\<close> stands for an assertion of the IR library that
  fails or a null pointer that is dereferenced.  \<open>arg_size\<close> is \<^verbatim>\<open>Function::arg_size\<close>.
\<close>

definition mergeTail ::
  "(bptr list \<Rightarrow> bptr) \<Rightarrow> (iptr list \<Rightarrow> iptr) \<Rightarrow> fptr \<Rightarrow> bptr \<Rightarrow> iptr list
     \<Rightarrow> (bptr \<times> bptr) list \<Rightarrow> func \<times> val list \<Rightarrow> (func \<times> iptr option) option" where
  "mergeTail nb ni Target CallBlock CallSites CallSiteToRet st =
     (case st of (F2, CallArgs) \<Rightarrow>
      do {
        let UnifiedCall = ni (iids F2);
        let F3 = appendInstr CallBlock (Instr UnifiedCall (Call (Direct Target) CallArgs)) F2;
        let F4 = replaceLoop UnifiedCall CallSites F3;
        let WhereFromNode = ni (iids F4);
        let F5 = insertBefore UnifiedCall (Instr WhereFromNode (PHI [])) F4;
        (ub, F6) \<leftarrow> getUnreachableBlock nb ni F5;
        let SwitchBackInstr = ni (iids F6);
        let F7 = appendInstr CallBlock
                   (Instr SwitchBackInstr (Switch (VInstr WhereFromNode) ub [])) F6;
        Some (switchLoop WhereFromNode SwitchBackInstr 0 CallSiteToRet F7, Some UnifiedCall)
      })"

definition mergeCallSites ::
  "(bptr list \<Rightarrow> bptr) \<Rightarrow> (iptr list \<Rightarrow> iptr) \<Rightarrow> (fptr \<Rightarrow> nat) \<Rightarrow> func \<Rightarrow> fptr
     \<Rightarrow> (func \<times> iptr option) option" where
  "mergeCallSites nb ni arg_size F Target =
     (let CallSites = collectCallSites F Target in
      if CallSites = [] then Some (F, None)
      else if length CallSites = 1 then Some (F, Some (CallSites ! 0))
      else
        (case createBlock nb F of (CallBlock, F0) \<Rightarrow>
         do {
           (F1, CallSiteToOrigParent, CallSiteToRet) \<leftarrow>
              splitLoop nb ni CallBlock CallSites (F0, Map.empty, []);
           st \<leftarrow> argPhiLoop ni CallBlock CallSites CallSiteToOrigParent 0 (arg_size Target) (F1, []);
           mergeTail nb ni Target CallBlock CallSites CallSiteToRet st
         }))"

subsection \<open>runOnFunction\<close>

text \<open>\<^verbatim>\<open>FuncToInvokers[f].push_back(c)\<close> on the \<^verbatim>\<open>std::map\<close> from callees to call sites.\<close>

definition pushInvoker :: "fptr \<Rightarrow> iptr \<Rightarrow> (fptr \<times> iptr list) list \<Rightarrow> (fptr \<times> iptr list) list" where
  "pushInvoker f c m =
     (case map_of m f of None \<Rightarrow> map_set f [c] m | Some cs \<Rightarrow> map_set f (cs @ [c]) m)"

text \<open>Lines 152-173, over the instructions of the function in function order.
  \<open>isIntrinsic\<close> is \<^verbatim>\<open>Function::isIntrinsic\<close>.\<close>

fun groupLoop :: "(fptr \<Rightarrow> bool) \<Rightarrow> instr list \<Rightarrow> (fptr \<times> iptr list) list \<Rightarrow> (fptr \<times> iptr list) list" where
  "groupLoop isIntrinsic [] FuncToInvokers = FuncToInvokers"
| "groupLoop isIntrinsic (I # Is) FuncToInvokers =
     (if isCallInst (kind I) then
        if isInlineAsm (kind I) then groupLoop isIntrinsic Is FuncToInvokers
        else
          (case getCalledFunction (kind I) of
             None \<Rightarrow> groupLoop isIntrinsic Is FuncToInvokers
           | Some f \<Rightarrow>
               if isIntrinsic f then groupLoop isIntrinsic Is FuncToInvokers
               else groupLoop isIntrinsic Is (pushInvoker f (iid I) FuncToInvokers))
      else groupLoop isIntrinsic Is FuncToInvokers)"

text \<open>Lines 175-182, the iteration over \<^verbatim>\<open>FuncToInvokers\<close> in key order; the state is the
  function with the flag \<^verbatim>\<open>Modified\<close>.\<close>

fun mergeLoop ::
  "(bptr list \<Rightarrow> bptr) \<Rightarrow> (iptr list \<Rightarrow> iptr) \<Rightarrow> (fptr \<Rightarrow> nat) \<Rightarrow> (fptr \<times> iptr list) list
     \<Rightarrow> func \<times> bool \<Rightarrow> (func \<times> bool) option" where
  "mergeLoop nb ni arg_size [] st = Some st"
| "mergeLoop nb ni arg_size ((Target, CallSites) # KVs) (F, Modified) =
     (if length CallSites > 1 then
        do {
          (F', UnifiedCall) \<leftarrow> mergeCallSites nb ni arg_size F Target;
          mergeLoop nb ni arg_size KVs (F', True)
        }
      else mergeLoop nb ni arg_size KVs (F, Modified))"

text \<open>The result of the pass: the function, the functions that the demotion pass
  \<^verbatim>\<open>reg2mem\<close> was run on (in order), and the returned flag.  The demotion pass itself
  is a parameter.\<close>

record pass_result =
  func_of :: func
  reg2mem_runs :: "func list"
  returned :: bool

definition runOnFunction ::
  "(bptr list \<Rightarrow> bptr) \<Rightarrow> (iptr list \<Rightarrow> iptr) \<Rightarrow> (fptr \<Rightarrow> nat) \<Rightarrow> (fptr \<Rightarrow> bool) \<Rightarrow> (func \<Rightarrow> func)
     \<Rightarrow> func \<Rightarrow> pass_result option" where
  "runOnFunction nb ni arg_size isIntrinsic reg2mem F =
     do {
       (F', Modified) \<leftarrow> mergeLoop nb ni arg_size (groupLoop isIntrinsic (instrs F) []) (F, False);
       if Modified
       then Some \<lparr>func_of = reg2mem F', reg2mem_runs = [F'], returned = Modified\<rparr>
       else Some \<lparr>func_of = F', reg2mem_runs = [], returned = Modified\<rparr>
     }"

section \<open>Definitions used in the statements and proofs\<close>

text \<open>An allocator is any function that returns an address that is not live.  The
  bump allocator is one of them.\<close>

definition freshAlloc :: "(nat list \<Rightarrow> nat) \<Rightarrow> bool" where
  "freshAlloc a \<longleftrightarrow> (\<forall>xs. a xs \<notin> set xs)"

definition bumpAlloc :: "nat list \<Rightarrow> nat" where
  "bumpAlloc xs = Suc (fold max xs 0)"

text \<open>A block whose whole content is one \<^verbatim>\<open>unreachable\<close>; a block whose whole content
  is one PHI node (on which the assertion of line 32 fails).\<close>

fun isUnreachableOnly :: "block \<Rightarrow> bool" where
  "isUnreachableOnly (b, [i]) = (kind i = Unreachable)"
| "isUnreachableOnly (b, is) = False"

fun isLonePHI :: "block \<Rightarrow> bool" where
  "isLonePHI (b, [i]) = isPHI (kind i)"
| "isLonePHI (b, is) = False"

definition noLonePHI :: "func \<Rightarrow> bool" where
  "noLonePHI F \<longleftrightarrow> list_all (\<lambda>B. \<not> isLonePHI B) F"

definition phiRedirect :: "bool \<Rightarrow> bptr \<Rightarrow> bptr \<Rightarrow> instr list \<Rightarrow> instr list" where
  "phiRedirect c old new is = (if c then replacePhiUsesWith old new is else is)"

definition insertAfterPhis :: "instr \<Rightarrow> instr list \<Rightarrow> instr list" where
  "insertAfterPhis ci is =
     takeWhile (\<lambda>i. isPHI (kind i)) is @ ci # dropWhile (\<lambda>i. isPHI (kind i)) is"

definition splitResult ::
  "bptr \<Rightarrow> bptr \<Rightarrow> iptr \<Rightarrow> func \<Rightarrow> bptr \<Rightarrow> instr list \<Rightarrow> instr \<Rightarrow> instr list \<Rightarrow> func \<Rightarrow> func" where
  "splitResult M R B Fa P pre ci post Fb =
     replaceSuccessorsPhiUsesWith P R (successors (kind (last post))) Fa @
     (P, phiRedirect (P \<in> set (successors (kind (last post)))) P R pre @ [Instr B (Br M)]) #
     (R, insertAfterPhis ci (phiRedirect (R \<in> set (successors (kind (last post)))) P R post)) #
     replaceSuccessorsPhiUsesWith P R (successors (kind (last post))) Fb"

definition noEdgeTo :: "bptr \<Rightarrow> bptr list \<Rightarrow> func \<Rightarrow> bool" where
  "noEdgeTo M Ps F \<longleftrightarrow>
     (\<forall>(b, is) \<in> set F. b \<notin> set Ps \<longrightarrow> is \<noteq> [] \<longrightarrow> M \<notin> set (successors (kind (last is))))"

definition splitInv ::
  "bptr \<Rightarrow> func \<Rightarrow> iptr list \<Rightarrow> iptr list \<Rightarrow> bptr list \<Rightarrow> bptr list \<Rightarrow> split_state \<Rightarrow> bool" where
  "splitInv M F0 done cs Ps Rs st \<longleftrightarrow>
     (case st of (F, Orig, Ret) \<Rightarrow>
        distinct (bids F) \<and> distinct (iids F) \<and>
        (\<forall>(b, is) \<in> set F. b \<noteq> M \<longrightarrow> getTerminator is \<noteq> None) \<and>
        map_of F M = Some [] \<and>
        filter (\<lambda>x. x \<in> set (done @ cs)) (iids F) = done @ cs \<and>
        (\<forall>i \<in> set (instrs F). iid i \<in> set (done @ cs) \<longrightarrow> isCallInst (kind i)) \<and>
        (\<forall>i. isCallInst (kind i) \<longrightarrow> (i \<in> set (instrs F) \<longleftrightarrow> i \<in> set (instrs F0))) \<and>
        set (bids F) = set (bids F0) \<union> set Rs \<and>
        set (iids F0) \<subseteq> set (iids F) \<and>
        length Ps = length done \<and> length Rs = length done \<and>
        map Orig done = map Some Ps \<and>
        distinct Ps \<and> distinct Rs \<and> set Rs \<inter> set (bids F0) = {} \<and> set Ps \<subseteq> set (bids F) \<and>
        set Ret = set (zip Ps Rs) \<and> sorted_wrt (<) (map fst Ret) \<and>
        (\<forall>j < length done. getParent F (done ! j) = Some (Rs ! j)) \<and>
        (\<forall>P \<in> set Ps. \<exists>is B. map_of F P = Some (is @ [Instr B (Br M)]) \<and> iid ` set is \<inter> set cs = {}) \<and>
        (noEdgeTo M [] F0 \<longrightarrow> noEdgeTo M Ps F))"

definition wellFormed :: "func \<Rightarrow> bool" where
  "wellFormed F \<longleftrightarrow>
     distinct (bids F) \<and> distinct (iids F) \<and> list_all (\<lambda>(b, is). getTerminator is \<noteq> None) F"

definition substSites :: "iptr list \<Rightarrow> iptr \<Rightarrow> val \<Rightarrow> val" where
  "substSites cs u v = (case v of VInstr x \<Rightarrow> if x \<in> set cs then VInstr u else v | _ \<Rightarrow> v)"

definition cleanBlock :: "iptr list \<Rightarrow> iptr \<Rightarrow> instr list \<Rightarrow> instr list" where
  "cleanBlock cs u is =
     filter (\<lambda>i. iid i \<notin> set cs) (map (mapInstr (mapOperands (substSites cs u))) is)"

definition cleanFunc :: "iptr list \<Rightarrow> iptr \<Rightarrow> func \<Rightarrow> func" where
  "cleanFunc cs u F = map (\<lambda>(b, is). (b, cleanBlock cs u is)) F"

definition callArgs :: "func \<Rightarrow> iptr \<Rightarrow> val list" where
  "callArgs F c = (case getInstr (instrs F) c of Some (Instr _ (Call _ args)) \<Rightarrow> args | _ \<Rightarrow> [])"

fun whereIncoming :: "nat \<Rightarrow> (bptr \<times> bptr) list \<Rightarrow> (val \<times> bptr) list" where
  "whereIncoming k [] = []"
| "whereIncoming k ((P, R) # kvs) = (VConstInt (of_nat k), P) # whereIncoming (Suc k) kvs"

fun switchCases :: "nat \<Rightarrow> (bptr \<times> bptr) list \<Rightarrow> (32 word \<times> bptr) list" where
  "switchCases k [] = []"
| "switchCases k ((P, R) # kvs) = (of_nat k, R) # switchCases (Suc k) kvs"

definition mergedBlock ::
  "iptr list \<Rightarrow> iptr \<Rightarrow> iptr \<Rightarrow> iptr \<Rightarrow> bptr \<Rightarrow> fptr \<Rightarrow> instr list \<Rightarrow> val list
     \<Rightarrow> (bptr \<times> bptr) list \<Rightarrow> instr list" where
  "mergedBlock cs u w sw ub T phis args Ret =
     map (mapInstr (mapOperands (substSites cs u))) phis @
     [Instr w (PHI (whereIncoming 0 Ret)),
      Instr u (Call (Direct T) (map (substSites cs u) args)),
      Instr sw (Switch (VInstr w) ub (switchCases 0 Ret))]"

definition sitesHaveArgs :: "(fptr \<Rightarrow> nat) \<Rightarrow> func \<Rightarrow> fptr \<Rightarrow> bool" where
  "sitesHaveArgs arg_size F T \<longleftrightarrow>
     list_all (\<lambda>c. arg_size T \<le> length (callArgs F c)) (collectCallSites F T)"

definition mergeOutcome ::
  "(bptr list \<Rightarrow> bptr) \<Rightarrow> (iptr list \<Rightarrow> iptr) \<Rightarrow> (fptr \<Rightarrow> nat) \<Rightarrow> func \<Rightarrow> fptr
     \<Rightarrow> iptr list \<Rightarrow> bptr \<Rightarrow> func \<Rightarrow> (iptr \<rightharpoonup> bptr) \<Rightarrow> (bptr \<times> bptr) list \<Rightarrow> bptr list \<Rightarrow> bptr list
     \<Rightarrow> func \<Rightarrow> func \<Rightarrow> instr list \<Rightarrow> iptr \<Rightarrow> iptr \<Rightarrow> iptr \<Rightarrow> bptr \<Rightarrow> func \<Rightarrow> bool" where
  "mergeOutcome nb ni arg_size F T cs M F1 Orig Ret Ps Rs Ga Gb phis u w sw ub extra \<longleftrightarrow>
     cs = collectCallSites F T \<and> M = nb (bids F) \<and> M \<notin> set (bids F) \<and>
     splitLoop nb ni M cs (F @ [(M, [])], Map.empty, []) = Some (F1, Orig, Ret) \<and>
     splitInv M (F @ [(M, [])]) cs [] Ps Rs (F1, Orig, Ret) \<and>
     F1 = Ga @ (M, []) # Gb \<and>
     map kind phis = map (\<lambda>j. PHI (zip (map (\<lambda>c. callArgs F c ! j) cs) Ps)) [0..<arg_size T] \<and>
     distinct (map iid phis) \<and> set (map iid phis) \<inter> set (iids F1) = {} \<and>
     mergeCallSites nb ni arg_size F T =
       Some (cleanFunc cs u Ga
               @ (M, mergedBlock cs u w sw ub T phis (map (\<lambda>p. VInstr (iid p)) phis) Ret)
               # cleanFunc cs u Gb @ extra, Some u) \<and>
     u \<notin> set (iids F1) \<union> iid ` set phis \<and>
     w \<notin> insert u (set (iids (cleanFunc cs u (Ga @ (M, phis) # Gb)))) \<and>
     sw \<notin> {u, w} \<union> set (iids (cleanFunc cs u (Ga @ (M, phis) # Gb))) \<union> set (iids extra) \<and>
     ((extra = [] \<and> ub \<in> set (bids F1) \<and> ub \<noteq> M)
      \<or> (\<exists>x. extra = [(ub, [Instr x Unreachable])] \<and> ub \<notin> set (bids F1)
            \<and> x \<notin> {u, w} \<union> set (iids (cleanFunc cs u (Ga @ (M, phis) # Gb)))))"

definition callsOf :: "fptr \<Rightarrow> func \<Rightarrow> instr list" where
  "callsOf T F = filter (\<lambda>i. getCalledFunction (kind i) = Some T) (instrs F)"

definition exArgSize :: "fptr \<Rightarrow> nat" where
  "exArgSize f = 1"


text \<open>Three calls of the one-parameter function 7 in three blocks, each followed by a use
  of the result; the second call passes the result of the first.\<close>

definition exThree :: func where
  "exThree =
     [(10, [Instr 1 (Call (Direct 7) [VArgument 0]), Instr 2 (Other [VInstr 1]), Instr 3 (Br 20)]),
      (20, [Instr 4 (Call (Direct 7) [VInstr 1]), Instr 5 (Other [VInstr 4]), Instr 6 (Br 30)]),
      (30, [Instr 7 (Call (Direct 7) [VArgument 2]), Instr 8 (OtherTerm [VInstr 7] [])])]"

text \<open>The value a PHI node has when control arrives from block \<open>pred\<close>, and the case a
  \<^verbatim>\<open>switch\<close> on value \<open>v\<close> takes (\<open>None\<close> is the default edge).\<close>

definition phiValue :: "(val \<times> bptr) list \<Rightarrow> bptr \<Rightarrow> val option" where
  "phiValue inc pred = map_of (map (\<lambda>(v, b). (b, v)) inc) pred"

definition switchEdge :: "val \<Rightarrow> (32 word \<times> bptr) list \<Rightarrow> bptr option" where
  "switchEdge v cases = (case v of VConstInt n \<Rightarrow> map_of cases n | _ \<Rightarrow> None)"

text \<open>Two calls of function 7; the block that comes first in the function has the larger
  address.\<close>

definition exTwo :: func where
  "exTwo =
     [(30, [Instr 1 (Call (Direct 7) [VArgument 0]), Instr 2 (Br 20)]),
      (20, [Instr 3 (Call (Direct 7) [VArgument 1]), Instr 4 (OtherTerm [VInstr 3] [])])]"

text \<open>The incoming list of a PHI node; every call site passes exactly as many arguments
  as the callee has parameters.\<close>

definition phiIncoming :: "instr \<Rightarrow> (val \<times> bptr) list" where
  "phiIncoming i = (case kind i of PHI inc \<Rightarrow> inc | _ \<Rightarrow> [])"

definition sitesMatchSignature :: "(fptr \<Rightarrow> nat) \<Rightarrow> func \<Rightarrow> fptr \<Rightarrow> bool" where
  "sitesMatchSignature arg_size F T \<longleftrightarrow>
     list_all (\<lambda>c. length (callArgs F c) = arg_size T) (collectCallSites F T)"

text \<open>Three calls of function 7 in a row, in blocks 10, 20 and 30.  In \<open>exStale\<close> the
  third call passes the result of the first call, in \<open>exStaleB\<close> the result of the
  second.\<close>

definition exStale :: func where
  "exStale =
     [(10, [Instr 1 (Call (Direct 7) [VArgument 0]), Instr 2 (Br 20)]),
      (20, [Instr 3 (Call (Direct 7) [VArgument 1]), Instr 4 (Br 30)]),
      (30, [Instr 5 (Call (Direct 7) [VInstr 1]), Instr 6 (OtherTerm [VInstr 5] [])])]"

definition exStaleB :: func where
  "exStaleB =
     [(10, [Instr 1 (Call (Direct 7) [VArgument 0]), Instr 2 (Br 20)]),
      (20, [Instr 3 (Call (Direct 7) [VArgument 1]), Instr 4 (Br 30)]),
      (30, [Instr 5 (Call (Direct 7) [VInstr 3]), Instr 6 (OtherTerm [VInstr 5] [])])]"

text \<open>The successors of a block are those of its terminator; the predecessors of a block
  are the blocks that have it among their successors.\<close>

definition blockSuccessors :: "instr list \<Rightarrow> bptr list" where
  "blockSuccessors is = (case getTerminator is of Some t \<Rightarrow> successors (kind t) | None \<Rightarrow> [])"

definition predecessors :: "func \<Rightarrow> bptr \<Rightarrow> bptr list" where
  "predecessors F b = map fst (filter (\<lambda>(p, is). b \<in> set (blockSuccessors is)) F)"

text \<open>Every branch target of the function is one of its blocks.\<close>

definition targetsInside :: "func \<Rightarrow> bool" where
  "targetsInside F \<longleftrightarrow>
     list_all (\<lambda>(b, is). list_all (\<lambda>t. t \<in> set (bids F)) (blockSuccessors is)) F"

text \<open>Arriving from any of the blocks \<open>preds\<close>, the PHI node with incoming list \<open>inc\<close>
  yields a constant for which the switch has a case, so that the switch takes a case
  edge and not its default edge.\<close>

definition entersByCase :: "bptr list \<Rightarrow> (val \<times> bptr) list \<Rightarrow> (32 word \<times> bptr) list \<Rightarrow> bool" where
  "entersByCase preds inc cases \<longleftrightarrow>
     list_all (\<lambda>P. case phiValue inc P of
                     Some (VConstInt n) \<Rightarrow> switchEdge (VConstInt n) cases \<noteq> None
                   | _ \<Rightarrow> False) preds"


text \<open>What the merge of the call sites \<open>cs\<close> into the call \<open>u\<close> keeps of \<open>F\<close> in \<open>F'\<close>:
  every block; the address of every instruction other than \<open>cs\<close>; and every call
  instruction other than \<open>cs\<close>, where an operand that was the result of one of \<open>cs\<close> has
  become the result of \<open>u\<close>.\<close>

definition othersKept :: "iptr list \<Rightarrow> iptr \<Rightarrow> func \<Rightarrow> func \<Rightarrow> bool" where
  "othersKept cs u F F' \<longleftrightarrow>
     list_all (\<lambda>b. b \<in> set (bids F')) (bids F) \<and>
     list_all (\<lambda>i. iid i \<notin> set cs \<longrightarrow>
                 iid i \<in> set (iids F') \<and>
                 (isCallInst (kind i) \<longrightarrow>
                    mapInstr (mapOperands (substSites cs u)) i \<in> set (instrs F')))
              (instrs F)"

text \<open>Two calls of function 7, each followed by an indirect call through the same pointer
  that takes the result; an inline assembly call at the end.\<close>

definition exMixed :: func where
  "exMixed =
     [(10, [Instr 1 (Call (Direct 7) [VArgument 0]),
            Instr 2 (Call (Indirect (VOther 7)) [VInstr 1]),
            Instr 3 (Br 20)]),
      (20, [Instr 4 (Call (Direct 7) [VArgument 1]),
            Instr 5 (Call (Indirect (VOther 7)) [VInstr 4]),
            Instr 6 (Call (InlineAsm 0) []),
            Instr 7 (OtherTerm [] [])])]"


text \<open>A direct call passes at least as many arguments as its callee has parameters.\<close>

fun enoughArgs :: "(fptr \<Rightarrow> nat) \<Rightarrow> ikind \<Rightarrow> bool" where
  "enoughArgs arg_size (Call (Direct f) args) = (arg_size f \<le> length args)"
| "enoughArgs arg_size _ = True"

definition callsHaveArgs :: "(fptr \<Rightarrow> nat) \<Rightarrow> func \<Rightarrow> bool" where
  "callsHaveArgs arg_size F \<longleftrightarrow> list_all (\<lambda>i. enoughArgs arg_size (kind i)) (instrs F)"

text \<open>The renaming \<open>g\<close> of operands changes nothing but results of the instructions \<open>E\<close>;
  the instruction \<open>i\<close> is in \<open>G\<close> up to such a renaming of its operands.\<close>

definition changesOnly :: "iptr set \<Rightarrow> (val \<Rightarrow> val) \<Rightarrow> bool" where
  "changesOnly E g \<longleftrightarrow> (\<forall>v. g v \<noteq> v \<longrightarrow> (\<exists>x \<in> E. v = VInstr x))"

definition keptUpTo :: "iptr set \<Rightarrow> instr \<Rightarrow> func \<Rightarrow> bool" where
  "keptUpTo E i G \<longleftrightarrow> (\<exists>g. changesOnly E g \<and> mapInstr (mapOperands g) i \<in> set (instrs G))"

text \<open>The test of lines 161-171: a call that is not inline assembly and whose called
  function is known and not an intrinsic.\<close>

definition isEligible :: "(fptr \<Rightarrow> bool) \<Rightarrow> ikind \<Rightarrow> bool" where
  "isEligible isIntrinsic k \<longleftrightarrow>
     isCallInst k \<and> \<not> isInlineAsm k \<and>
     (case getCalledFunction k of None \<Rightarrow> False | Some f \<Rightarrow> \<not> isIntrinsic f)"

definition eligibleIds :: "(fptr \<Rightarrow> bool) \<Rightarrow> func \<Rightarrow> iptr list" where
  "eligibleIds isIntrinsic F = map iid (filter (\<lambda>i. isEligible isIntrinsic (kind i)) (instrs F))"

text \<open>The function as the merges leave it, before the demotion pass runs on it.\<close>

definition beforeDemotion :: "pass_result \<Rightarrow> func" where
  "beforeDemotion r = (case reg2mem_runs r of [] \<Rightarrow> func_of r | G # rest \<Rightarrow> G)"

text \<open>Function 9 is the only intrinsic.\<close>

definition exIntrinsic9 :: "fptr \<Rightarrow> bool" where
  "exIntrinsic9 f \<longleftrightarrow> f = 9"

subsection \<open>Example functions\<close>

definition exUnreachable :: func where
  "exUnreachable =
     [(10, [Instr 1 (Other []), Instr 2 (Br 20)]),
      (20, [Instr 3 Unreachable]),
      (30, [Instr 4 Unreachable])]"

definition exOneCall :: func where
  "exOneCall = [(10, [Instr 1 (Call (Direct 7) [VArgument 0]), Instr 2 (OtherTerm [VInstr 1] [])])]"

section \<open>Allocators\<close>

lemma fold_max_ge: "x \<in> set xs \<Longrightarrow> x \<le> fold max xs (m::nat)"
proof (induction xs arbitrary: m)
  case Nil then show ?case by simp
next
  case (Cons y ys)
  have mono: "\<And>m. m \<le> fold max ys (m::nat)"
  proof -
    fix m :: nat show "m \<le> fold max ys m"
      by (induction ys arbitrary: m) (auto intro: order_trans [OF max.cobounded2])
  qed
  show ?case
  proof (cases "x = y")
    case True
    have "y \<le> max y m" by simp
    also have "\<dots> \<le> fold max ys (max y m)" by (rule mono)
    finally show ?thesis using True by simp
  next
    case False
    with Cons.prems have "x \<in> set ys" by simp
    then show ?thesis using Cons.IH by simp
  qed
qed

lemma freshAlloc_bumpAlloc: "freshAlloc bumpAlloc"
  unfolding freshAlloc_def bumpAlloc_def
proof
  fix xs :: "nat list"
  show "Suc (fold max xs 0) \<notin> set xs"
  proof
    assume "Suc (fold max xs 0) \<in> set xs"
    then have "Suc (fold max xs 0) \<le> fold max xs 0" by (rule fold_max_ge)
    then show False by simp
  qed
qed

section \<open>The unreachable-block locator\<close>

lemma findUnreachableBlock_find_aux:
  "\<forall>B \<in> set F. \<not> isLonePHI B \<Longrightarrow>
   findUnreachableBlock F = Some (map_option fst (find isUnreachableOnly F))"
proof (induction F)
  case Nil then show ?case by simp
next
  case (Cons B F)
  obtain b "is" where B: "B = (b, is)" by (cases B)
  show ?case
  proof (cases "is")
    case Nil with B Cons show ?thesis by simp
  next
    case (Cons i js)
    note isC = this
    show ?thesis
    proof (cases js)
      case Nil
      with isC B Cons.prems have "\<not> isPHI (kind i)" by simp
      with Nil isC B Cons.IH Cons.prems show ?thesis by simp
    next
      case (Cons j ks)
      with isC B Cons.IH Cons.prems show ?thesis by simp
    qed
  qed
qed

lemma findUnreachableBlock_find:
  "noLonePHI F \<Longrightarrow>
   findUnreachableBlock F = Some (map_option fst (find isUnreachableOnly F))"
  by (rule findUnreachableBlock_find_aux) (simp add: noLonePHI_def list_all_iff)

lemma iids_append_empty: "iids (F @ [(b, [])]) = iids F"
  by (simp add: iids_def instrs_def)

lemma appendInstr_new_block:
  "b \<notin> set (bids F) \<Longrightarrow> appendInstr b i (F @ [(b, [])]) = F @ [(b, [i])]"
  by (induction F) (auto simp: appendInstr_def updBlock_def bids_def)

lemma getUnreachableBlock_eq:
  assumes "noLonePHI F" and "freshAlloc nb"
  shows "getUnreachableBlock nb ni F =
           (case find isUnreachableOnly F of
              Some (b, is) \<Rightarrow> Some (b, F)
            | None \<Rightarrow> Some (nb (bids F), F @ [(nb (bids F), [Instr (ni (iids F)) Unreachable])]))"
proof -
  have fr: "nb (bids F) \<notin> set (bids F)" using assms(2) by (simp add: freshAlloc_def)
  show ?thesis
    using findUnreachableBlock_find [OF assms(1)] appendInstr_new_block [OF fr]
    by (auto simp: getUnreachableBlock_def createBlock_def Let_def iids_append_empty
             split: option.splits)
qed

section \<open>Lists of blocks\<close>

lemma bids_simps [simp]:
  "bids [] = []" "bids ((b, is) # F) = b # bids F" "bids (F @ G) = bids F @ bids G"
  by (simp_all add: bids_def)

lemma instrs_simps [simp]:
  "instrs [] = []" "instrs ((b, is) # F) = is @ instrs F" "instrs (F @ G) = instrs F @ instrs G"
  by (simp_all add: instrs_def)

lemma iids_simps [simp]:
  "iids [] = []" "iids ((b, is) # F) = map iid is @ iids F" "iids (F @ G) = iids F @ iids G"
  by (simp_all add: iids_def)

lemma map_of_mid:
  "P \<notin> set (bids Fa) \<Longrightarrow> map_of (Fa @ (P, is) # Fb) P = Some is"
  by (induction Fa) auto

lemma map_of_bids: "map_of F b = Some is \<Longrightarrow> b \<in> set (bids F)"
  by (induction F) (auto split: if_splits)

lemma map_of_decomp:
  "map_of F b = Some is \<Longrightarrow> \<exists>Fa Fb. F = Fa @ (b, is) # Fb \<and> b \<notin> set (bids Fa)"
proof (induction F)
  case Nil then show ?case by simp
next
  case (Cons B F)
  obtain b' is' where B: "B = (b', is')" by (cases B)
  show ?case
  proof (cases "b' = b")
    case True
    with Cons.prems B have "B # F = [] @ (b, is) # F \<and> b \<notin> set (bids [])" by simp
    then show ?thesis by blast
  next
    case False
    with Cons B obtain Fa Fb where "F = Fa @ (b, is) # Fb" "b \<notin> set (bids Fa)" by auto
    with False B have "B # F = (B # Fa) @ (b, is) # Fb \<and> b \<notin> set (bids (B # Fa))" by simp
    then show ?thesis by blast
  qed
qed

lemma updBlock_notin: "b \<notin> set (bids F) \<Longrightarrow> updBlock b f F = F"
  by (induction F) (auto simp: updBlock_def)

lemma updBlock_append: "updBlock b f (F @ G) = updBlock b f F @ updBlock b f G"
  by (simp add: updBlock_def)

lemma updBlock_mid:
  "P \<notin> set (bids Fa) \<Longrightarrow> P \<notin> set (bids Fb) \<Longrightarrow>
   updBlock P f (Fa @ (P, is) # Fb) = Fa @ (P, f is) # Fb"
  using updBlock_notin [of P Fa f] updBlock_notin [of P Fb f]
  by (simp add: updBlock_append) (simp add: updBlock_def)

lemma appendInstr_mid:
  "P \<notin> set (bids Fa) \<Longrightarrow> P \<notin> set (bids Fb) \<Longrightarrow>
   appendInstr P i (Fa @ (P, is) # Fb) = Fa @ (P, is @ [i]) # Fb"
  by (simp add: appendInstr_def updBlock_mid)

lemma insertBlockAfter_mid:
  "P \<notin> set (bids Fa) \<Longrightarrow>
   insertBlockAfter P new (Fa @ (P, is) # Fb) = Fa @ (P, is) # new # Fb"
  by (induction Fa) auto

lemma getParent_mid:
  "c \<notin> set (iids Fa) \<Longrightarrow> c \<in> iid ` set is \<Longrightarrow> getParent (Fa @ (P, is) # Fb) c = Some P"
  by (induction Fa) auto

lemma getParent_Some_decomp:
  "getParent F c = Some P \<Longrightarrow>
   \<exists>Fa is Fb. F = Fa @ (P, is) # Fb \<and> c \<notin> set (iids Fa) \<and> c \<in> iid ` set is"
proof (induction F)
  case Nil then show ?case by simp
next
  case (Cons B F)
  obtain b "is" where B: "B = (b, is)" by (cases B)
  show ?case
  proof (cases "c \<in> iid ` set is")
    case True
    with Cons.prems B have "B # F = [] @ (P, is) # F \<and> c \<notin> set (iids []) \<and> c \<in> iid ` set is"
      by simp
    then show ?thesis by blast
  next
    case False
    with Cons B obtain Fa is' Fb where
      "F = Fa @ (P, is') # Fb" "c \<notin> set (iids Fa)" "c \<in> iid ` set is'" by auto
    with False B have
      "B # F = (B # Fa) @ (P, is') # Fb \<and> c \<notin> set (iids (B # Fa)) \<and> c \<in> iid ` set is'"
      by simp
    then show ?thesis by blast
  qed
qed

lemma getParent_None_iff: "getParent F c = None \<longleftrightarrow> c \<notin> set (iids F)"
  by (induction F) (auto split: if_splits)

section \<open>Instruction lists\<close>

lemma getInstr_mid:
  "iid ci \<notin> iid ` set pre \<Longrightarrow> getInstr (pre @ ci # post) (iid ci) = Some ci"
  by (induction pre) auto

lemma getInstr_Some: "getInstr is c = Some i \<Longrightarrow> i \<in> set is \<and> iid i = c"
  by (induction "is") (auto split: if_splits)

lemma getInstr_None_iff: "getInstr is c = None \<longleftrightarrow> c \<notin> iid ` set is"
  by (induction "is") auto

lemma getInstr_distinct:
  "distinct (map iid is) \<Longrightarrow> i \<in> set is \<Longrightarrow> getInstr is (iid i) = Some i"
  by (induction "is") (auto simp: image_iff)

lemma getNextNode_mid:
  "iid ci \<notin> iid ` set pre \<Longrightarrow> getNextNode (pre @ ci # n # post) (iid ci) = Some (iid n)"
proof (induction pre)
  case Nil then show ?case by simp
next
  case (Cons a pre)
  then show ?case by (cases pre) auto
qed

lemma getPrevNode_end:
  "iid b \<notin> iid ` set pre \<Longrightarrow> iid b \<noteq> iid a \<Longrightarrow> getPrevNode (pre @ [a, b]) (iid b) = Some (iid a)"
proof (induction pre)
  case Nil then show ?case by simp
next
  case (Cons x pre)
  then show ?case by (cases pre) auto
qed

lemma takeWhile_mid:
  "n \<notin> iid ` set pre \<Longrightarrow> iid ni = n \<Longrightarrow>
   takeWhile (\<lambda>i. iid i \<noteq> n) (pre @ ni # post) = pre"
  by (induction pre) auto

lemma dropWhile_mid:
  "n \<notin> iid ` set pre \<Longrightarrow> iid ni = n \<Longrightarrow>
   dropWhile (\<lambda>i. iid i \<noteq> n) (pre @ ni # post) = ni # post"
  by (induction pre) auto

lemma filter_id_notin: "c \<notin> iid ` set is \<Longrightarrow> filter (\<lambda>i. iid i \<noteq> c) is = is"
  by (induction "is") auto

lemma eraseFromParent_notin: "c \<notin> set (iids F) \<Longrightarrow> eraseFromParent c F = F"
  by (induction F) (auto simp: eraseFromParent_def filter_id_notin)

lemma eraseFromParent_append:
  "eraseFromParent c (F @ G) = eraseFromParent c F @ eraseFromParent c G"
  by (simp add: eraseFromParent_def)

lemma eraseFromParent_Cons:
  "eraseFromParent c ((b, is) # F) = (b, filter (\<lambda>i. iid i \<noteq> c) is) # eraseFromParent c F"
  by (simp add: eraseFromParent_def)

lemma eraseFromParent_mid:
  assumes "iid ci \<notin> set (iids Fa)" "iid ci \<notin> iid ` set pre" "iid ci \<notin> iid ` set post"
    "iid ci \<notin> set (iids Fb)"
  shows "eraseFromParent (iid ci) (Fa @ (P, pre @ ci # post) # Fb) = Fa @ (P, pre @ post) # Fb"
  using assms
  by (simp add: eraseFromParent_append eraseFromParent_Cons eraseFromParent_notin filter_id_notin)

lemma insertInstrBefore_notin: "pos \<notin> iid ` set is \<Longrightarrow> insertInstrBefore pos new is = is"
  by (induction "is") auto

lemma insertInstrBefore_mid:
  "iid p \<notin> iid ` set pre \<Longrightarrow> insertInstrBefore (iid p) new (pre @ p # post) = pre @ new # p # post"
  by (induction pre) auto

lemma insertBefore_notin: "pos \<notin> set (iids F) \<Longrightarrow> insertBefore pos new F = F"
  by (induction F) (auto simp: insertBefore_def insertInstrBefore_notin)

lemma insertBefore_append:
  "insertBefore pos new (F @ G) = insertBefore pos new F @ insertBefore pos new G"
  by (simp add: insertBefore_def)

lemma insertBefore_Cons:
  "insertBefore pos new ((b, is) # F) = (b, insertInstrBefore pos new is) # insertBefore pos new F"
  by (simp add: insertBefore_def)

lemma insertBefore_mid:
  assumes "iid p \<notin> set (iids Fa)" "iid p \<notin> iid ` set pre" "iid p \<notin> set (iids Fb)"
  shows "insertBefore (iid p) new (Fa @ (P, pre @ p # post) # Fb)
           = Fa @ (P, pre @ new # p # post) # Fb"
  using assms
  by (simp add: insertBefore_append insertBefore_Cons insertBefore_notin insertInstrBefore_mid)

section \<open>Redirecting PHI nodes\<close>

lemma replacePhiUsesWith_ids [simp]: "map iid (replacePhiUsesWith old new is) = map iid is"
  by (induction "is") (auto split: ikind.splits)

lemma replacePhiUsesWith_length [simp]: "length (replacePhiUsesWith old new is) = length is"
  using replacePhiUsesWith_ids [of old new "is"] by (metis length_map)

lemma replacePhiUsesWith_Nil_iff [simp]: "replacePhiUsesWith old new is = [] \<longleftrightarrow> is = []"
  by (cases "is") (auto split: ikind.splits)

lemma replacePhiUsesWith_nonphi:
  "\<not> isPHI (kind i) \<Longrightarrow>
   replacePhiUsesWith old new (xs @ i # ys) = replacePhiUsesWith old new xs @ i # ys"
proof (induction xs)
  case Nil then show ?case by (cases "kind i") auto
next
  case (Cons x xs)
  then show ?case by (cases "kind x") auto
qed

lemma replacePhiUsesWith_set_nonphi:
  "\<not> isPHI (kind i) \<Longrightarrow> i \<in> set (replacePhiUsesWith old new is) \<longleftrightarrow> i \<in> set is"
  by (induction "is") (auto split: ikind.splits)

lemma replacePhiUsesWith_phi_or_same:
  "i \<in> set (replacePhiUsesWith old new is) \<Longrightarrow> i \<in> set is \<or> isPHI (kind i)"
  by (induction "is") (auto split: ikind.splits)

lemma replacePhiUsesWith_takeWhile:
  "map iid (takeWhile (\<lambda>i. isPHI (kind i)) (replacePhiUsesWith old new is))
     = map iid (takeWhile (\<lambda>i. isPHI (kind i)) is)"
  by (induction "is") (auto split: ikind.splits)

lemma replacePhiUsesWith_dropWhile:
  "dropWhile (\<lambda>i. isPHI (kind i)) (replacePhiUsesWith old new is)
     = dropWhile (\<lambda>i. isPHI (kind i)) is"
  by (induction "is") (auto split: ikind.splits)

lemma replacePhiUsesWith_last:
  "is \<noteq> [] \<Longrightarrow> \<not> isPHI (kind (last is)) \<Longrightarrow> last (replacePhiUsesWith old new is) = last is"
proof -
  assume ne: "is \<noteq> []" and np: "\<not> isPHI (kind (last is))"
  then obtain xs where "is = xs @ [last is]" by (metis append_butlast_last_id)
  then have "replacePhiUsesWith old new is = replacePhiUsesWith old new xs @ [last is]"
    using replacePhiUsesWith_nonphi [OF np, of old new xs "[]"] by simp
  then show ?thesis by simp
qed

lemma isTerminator_not_PHI: "isTerminator k \<Longrightarrow> \<not> isPHI k"
  by (cases k) auto

lemma getTerminator_replacePhiUsesWith:
  "getTerminator is = Some t \<Longrightarrow> getTerminator (replacePhiUsesWith old new is) = Some t"
  by (auto simp: getTerminator_def replacePhiUsesWith_last isTerminator_not_PHI split: if_splits)

lemma getFirstNonPHI_dropWhile:
  "getFirstNonPHI is = (case dropWhile (\<lambda>i. isPHI (kind i)) is of [] \<Rightarrow> None | i # _ \<Rightarrow> Some i)"
  by (induction "is") auto

lemma replaceSuccessorsPhiUsesWith_Nil [simp]:
  "replaceSuccessorsPhiUsesWith old new ss [] = []"
  by (simp add: replaceSuccessorsPhiUsesWith_def)

lemma replaceSuccessorsPhiUsesWith_append [simp]:
  "replaceSuccessorsPhiUsesWith old new ss (F @ G) =
     replaceSuccessorsPhiUsesWith old new ss F @ replaceSuccessorsPhiUsesWith old new ss G"
  by (simp add: replaceSuccessorsPhiUsesWith_def)

lemma replaceSuccessorsPhiUsesWith_Cons [simp]:
  "replaceSuccessorsPhiUsesWith old new ss ((b, is) # F) =
     (b, phiRedirect (b \<in> set ss) old new is) # replaceSuccessorsPhiUsesWith old new ss F"
  by (simp add: replaceSuccessorsPhiUsesWith_def phiRedirect_def)

lemma phiRedirect_ids [simp]: "map iid (phiRedirect c old new is) = map iid is"
  by (simp add: phiRedirect_def)

lemma phiRedirect_set_ids [simp]: "iid ` set (phiRedirect c old new is) = iid ` set is"
  by (metis list.set_map phiRedirect_ids)

lemma phiRedirect_Nil [simp]: "phiRedirect c old new [] = []"
  by (simp add: phiRedirect_def)

lemma phiRedirect_Nil_iff [simp]: "phiRedirect c old new is = [] \<longleftrightarrow> is = []"
  by (simp add: phiRedirect_def)

lemma phiRedirect_takeWhile:
  "map iid (takeWhile (\<lambda>i. isPHI (kind i)) (phiRedirect c old new is))
     = map iid (takeWhile (\<lambda>i. isPHI (kind i)) is)"
  by (simp add: phiRedirect_def replacePhiUsesWith_takeWhile)

lemma phiRedirect_dropWhile:
  "dropWhile (\<lambda>i. isPHI (kind i)) (phiRedirect c old new is)
     = dropWhile (\<lambda>i. isPHI (kind i)) is"
  by (simp add: phiRedirect_def replacePhiUsesWith_dropWhile)

lemma phiRedirect_nonphi:
  "\<not> isPHI (kind i) \<Longrightarrow> phiRedirect c old new (xs @ i # ys) = phiRedirect c old new xs @ i # ys"
  by (simp add: phiRedirect_def replacePhiUsesWith_nonphi)

lemma phiRedirect_set_nonphi:
  "\<not> isPHI (kind i) \<Longrightarrow> i \<in> set (phiRedirect c old new is) \<longleftrightarrow> i \<in> set is"
  by (simp add: phiRedirect_def replacePhiUsesWith_set_nonphi)

lemma phiRedirect_last:
  "is \<noteq> [] \<Longrightarrow> \<not> isPHI (kind (last is)) \<Longrightarrow> last (phiRedirect c old new is) = last is"
  by (simp add: phiRedirect_def replacePhiUsesWith_last)

lemma getTerminator_phiRedirect:
  "getTerminator is = Some t \<Longrightarrow> getTerminator (phiRedirect c old new is) = Some t"
  by (simp add: phiRedirect_def getTerminator_replacePhiUsesWith)

lemma replaceSuccessorsPhiUsesWith_bids [simp]:
  "bids (replaceSuccessorsPhiUsesWith old new ss F) = bids F"
  by (induction F) auto

lemma replaceSuccessorsPhiUsesWith_iids [simp]:
  "iids (replaceSuccessorsPhiUsesWith old new ss F) = iids F"
  by (induction F) auto

lemma freshAllocD: "freshAlloc a \<Longrightarrow> a xs \<notin> set xs"
  by (simp add: freshAlloc_def)

lemma dropWhile_phi_nonempty:
  "is \<noteq> [] \<Longrightarrow> \<not> isPHI (kind (last is)) \<Longrightarrow> dropWhile (\<lambda>i. isPHI (kind i)) is \<noteq> []"
  by (induction "is") (auto split: if_splits)

lemma insertInstrBefore_first_nonphi:
  assumes "distinct (map iid is)" "dropWhile (\<lambda>i. isPHI (kind i)) is = p # rest"
  shows "insertInstrBefore (iid p) ci is = insertAfterPhis ci is"
proof -
  let ?tw = "takeWhile (\<lambda>i. isPHI (kind i)) is"
  have dec: "is = ?tw @ p # rest" using assms(2) by (metis takeWhile_dropWhile_id)
  with assms(1) have "iid p \<notin> iid ` set ?tw"
    by (metis (no_types, lifting) distinct.simps(2) distinct_append disjoint_iff
        list.set_intros(1) list.set_map map_append list.simps(9))
  then have "insertInstrBefore (iid p) ci (?tw @ p # rest) = ?tw @ ci # p # rest"
    by (rule insertInstrBefore_mid)
  with dec assms(2) show ?thesis by (simp add: insertAfterPhis_def)
qed

lemma splitBasicBlock_closed:
  assumes F: "F = Fa @ (P, pre @ ci # post) # Fb" and post: "post = n # post'"
    and db: "distinct (bids F)" and di: "distinct (iids F)"
    and tm: "isTerminator (kind (last post))"
    and fb: "freshAlloc nb"
  shows "splitBasicBlock nb ni P (iid n) F =
           Some (nb (bids F),
             replaceSuccessorsPhiUsesWith P (nb (bids F)) (successors (kind (last post)))
               (Fa @ (P, pre @ [ci, Instr (ni (iids F)) (Br (nb (bids F)))])
                   # (nb (bids F), post) # Fb))"
proof -
  let ?R = "nb (bids F)"
  have PFa: "P \<notin> set (bids Fa)" and PFb: "P \<notin> set (bids Fb)" using db F by auto
  have RF: "?R \<notin> set (bids F)" using fb by (rule freshAllocD)
  then have RP: "?R \<noteq> P" and RFb: "?R \<notin> set (bids Fb)" using F by auto
  have m: "map_of F P = Some (pre @ ci # post)" unfolding F by (rule map_of_mid [OF PFa])
  have gt: "getTerminator (pre @ ci # post) = Some (last post)"
    using tm post by (simp add: getTerminator_def)
  have nin: "iid n \<in> iid ` set (pre @ ci # post)" using post by simp
  have nd: "iid n \<notin> iid ` set (pre @ [ci])" using di F post by auto
  have tw: "takeWhile (\<lambda>i. iid i \<noteq> iid n) (pre @ ci # post) = pre @ [ci]"
    using takeWhile_mid [OF nd refl, of post'] post by simp
  have dw: "dropWhile (\<lambda>i. iid i \<noteq> iid n) (pre @ ci # post) = post"
    using dropWhile_mid [OF nd refl, of post'] post by simp
  have F1: "insertBlockAfter P (?R, post) (updBlock P (takeWhile (\<lambda>i. iid i \<noteq> iid n)) F)
              = Fa @ (P, pre @ [ci]) # (?R, post) # Fb"
    using PFa PFb unfolding F by (simp add: updBlock_mid tw insertBlockAfter_mid)
  have ids1: "iids (Fa @ (P, pre @ [ci]) # (?R, post) # Fb) = iids F" using F by simp
  have F2: "appendInstr P (Instr (ni (iids F)) (Br ?R)) (Fa @ (P, pre @ [ci]) # (?R, post) # Fb)
              = Fa @ (P, pre @ [ci, Instr (ni (iids F)) (Br ?R)]) # (?R, post) # Fb"
    using PFa PFb RP appendInstr_mid [of P Fa "(?R, post) # Fb"] by simp
  show ?thesis
    unfolding splitBasicBlock_def
    by (simp only: m gt nin dw F1 ids1 F2 Let_def option.case not_True_eq_False if_False)
qed

lemma iid_instrs: "iid ` set (instrs F) = set (iids F)"
  by (simp add: iids_def)

lemma set_insertAfterPhis: "set (insertAfterPhis ci is) = insert ci (set is)"
proof -
  have "set is = set (takeWhile (\<lambda>i. isPHI (kind i)) is) \<union> set (dropWhile (\<lambda>i. isPHI (kind i)) is)"
    by (metis set_append takeWhile_dropWhile_id)
  then show ?thesis by (auto simp: insertAfterPhis_def)
qed

lemma splitCallSite_closed:
  assumes F: "F = Fa @ (P, pre @ ci # post) # Fb"
    and db: "distinct (bids F)" and di: "distinct (iids F)"
    and pne: "post \<noteq> []" and tm: "isTerminator (kind (last post))"
    and np: "\<not> isPHI (kind ci)"
    and fb: "freshAlloc nb" and fi: "freshAlloc ni"
  shows "\<exists>B. B \<notin> set (iids F) \<and>
           splitCallSite nb ni M (iid ci) (F, Orig, Ret) =
             Some (splitResult M (nb (bids F)) B Fa P pre ci post Fb,
                   Orig(iid ci \<mapsto> P), map_set P (nb (bids F)) Ret)"
proof -
  let ?c = "iid ci" and ?R = "nb (bids F)"
  let ?ss = "successors (kind (last post))"
  let ?ren = "replaceSuccessorsPhiUsesWith P ?R ?ss"
  let ?brR = "Instr (ni (iids F)) (Br ?R)"
  define pre' where "pre' = phiRedirect (P \<in> set ?ss) P ?R pre"
  define post' where "post' = phiRedirect (?R \<in> set ?ss) P ?R post"
  define Ga where "Ga = ?ren Fa"
  define Gb where "Gb = ?ren Fb"
  obtain n tl where post: "post = n # tl" using pne by (cases post) auto
  have PFa: "P \<notin> set (bids Fa)" and PFb: "P \<notin> set (bids Fb)" using db F by auto
  have RF: "?R \<notin> set (bids F)" using fb by (rule freshAllocD)
  then have RP: "?R \<noteq> P" and RFa: "?R \<notin> set (bids Fa)" and RFb: "?R \<notin> set (bids Fb)"
    using F by auto
  have bGa: "bids Ga = bids Fa" and bGb: "bids Gb = bids Fb" by (simp_all add: Ga_def Gb_def)
  have iGa: "iids Ga = iids Fa" and iGb: "iids Gb = iids Fb" by (simp_all add: Ga_def Gb_def)
  have cFa: "?c \<notin> set (iids Ga)" and cpre: "?c \<notin> iid ` set pre"
    and cpost: "?c \<notin> iid ` set post" and cFb: "?c \<notin> set (iids Gb)"
    using di F iGa iGb by auto
  have brF: "ni (iids F) \<notin> set (iids F)" using fi by (rule freshAllocD)
  have idpre': "map iid pre' = map iid pre" by (simp add: pre'_def)
  have idpost': "map iid post' = map iid post" by (simp add: post'_def)
  have setpre': "iid ` set pre' = iid ` set pre" using idpre' by (metis list.set_map)
  have setpost': "iid ` set post' = iid ` set post" using idpost' by (metis list.set_map)
  have cpre': "?c \<notin> iid ` set pre'" using cpre setpre' by simp
  have cpost': "?c \<notin> iid ` set post'" using cpost setpost' by simp
  have idsF: "set (iids F) = set (iids Ga) \<union> iid ` set pre' \<union> {?c} \<union> iid ` set post' \<union> set (iids Gb)"
    unfolding F iGa iGb setpre' setpost' by auto
  \<comment> \<open>line 85\<close>
  have s1: "getParent F ?c = Some P"
    unfolding F using cFa iGa by (intro getParent_mid) simp_all
  have s2: "map_of F P = Some (pre @ ci # post)" unfolding F by (rule map_of_mid [OF PFa])
  have s3: "getNextNode (pre @ ci # post) ?c = Some (iid n)"
    unfolding post by (rule getNextNode_mid [OF cpre])
  \<comment> \<open>lines 86-87\<close>
  let ?F1 = "Ga @ (P, pre' @ [ci, ?brR]) # (?R, post') # Gb"
  have ren1: "?ren (Fa @ (P, pre @ [ci, ?brR]) # (?R, post) # Fb) = ?F1"
    using phiRedirect_nonphi [OF np, of "P \<in> set ?ss" P ?R pre "[?brR]"]
    by (simp add: Ga_def Gb_def pre'_def post'_def)
  have s4: "splitBasicBlock nb ni P (iid n) F = Some (?R, ?F1)"
    using splitBasicBlock_closed [OF F post db di tm fb, of ni] ren1 by simp
  have s5: "map_of ?F1 ?R = Some post'"
    using map_of_mid [of ?R "Ga @ [(P, pre' @ [ci, ?brR])]" post' Gb] RFa RP bGa by simp
  \<comment> \<open>line 93\<close>
  have dweq: "dropWhile (\<lambda>i. isPHI (kind i)) post' = dropWhile (\<lambda>i. isPHI (kind i)) post"
    by (simp add: post'_def phiRedirect_dropWhile)
  have dwne: "dropWhile (\<lambda>i. isPHI (kind i)) post' \<noteq> []"
    unfolding dweq by (rule dropWhile_phi_nonempty [OF pne isTerminator_not_PHI [OF tm]])
  then obtain pos rest where dw: "dropWhile (\<lambda>i. isPHI (kind i)) post' = pos # rest"
    by (cases "dropWhile (\<lambda>i. isPHI (kind i)) post'") auto
  have s6: "getFirstNonPHI post' = Some pos" by (simp only: getFirstNonPHI_dropWhile dw list.case)
  have posin: "pos \<in> set post'" using dw by (metis list.set_intros(1) set_dropWhileD)
  then have posid: "iid pos \<in> iid ` set post'" by blast
  have dF: "distinct (iids Ga @ map iid pre' @ ?c # map iid post' @ iids Gb)"
    using di unfolding F iGa iGb idpre' idpost' by simp
  have g: "getInstr (instrs ?F1) ?c = Some ci"
  proof -
    have "instrs ?F1 = (instrs Ga @ pre') @ ci # (?brR # post' @ instrs Gb)" by simp
    moreover have "?c \<notin> iid ` set (instrs Ga @ pre')"
      using cFa cpre' by (simp add: image_Un iid_instrs)
    ultimately show ?thesis using getInstr_mid by metis
  qed
  let ?F2e = "Ga @ (P, pre' @ [?brR]) # (?R, post') # Gb"
  have e1: "eraseFromParent ?c ?F1 = ?F2e"
  proof -
    have "?c \<noteq> ni (iids F)" using brF F by auto
    then have a: "?c \<notin> iid ` set [?brR]" by simp
    have c: "?c \<notin> set (iids ((?R, post') # Gb))" using cpost' cFb by simp
    show ?thesis
      using eraseFromParent_mid [OF cFa cpre' a c, of P] by simp
  qed
  let ?F2 = "Ga @ (P, pre' @ [?brR]) # (?R, insertAfterPhis ci post') # Gb"
  have i1: "insertBefore (iid pos) ci ?F2e = ?F2"
  proof -
    have a: "iid pos \<notin> set (iids Ga)" using posid dF by auto
    have b: "iid pos \<notin> iid ` set (pre' @ [?brR])"
      using posid dF brF idsF by (auto simp: image_iff)
    have c: "iid pos \<notin> set (iids Gb)" using posid dF by auto
    have d: "distinct (map iid post')" using dF by simp
    show ?thesis
      using insertInstrBefore_first_nonphi [OF d dw, of ci]
      by (simp add: insertBefore_append insertBefore_Cons insertBefore_notin [OF a]
            insertBefore_notin [OF c] insertInstrBefore_notin [OF b])
  qed
  have s7: "moveBefore ?c (iid pos) ?F1 = Some ?F2"
    by (simp only: moveBefore_def g option.case e1 i1)
  \<comment> \<open>lines 97-98\<close>
  let ?B = "ni (iids ?F2)"
  have ids2: "set (iids ?F2) = insert (ni (iids F)) (set (iids F))"
    unfolding idsF by (auto simp: set_insertAfterPhis)
  have BF2: "?B \<notin> set (iids ?F2)" using fi by (rule freshAllocD)
  then have BF: "?B \<notin> set (iids F)" and Bbr: "?B \<noteq> ni (iids F)" using ids2 by auto
  let ?F3 = "Ga @ (P, pre' @ [?brR, Instr ?B (Br M)]) # (?R, insertAfterPhis ci post') # Gb"
  have s8: "appendInstr P (Instr ?B (Br M)) ?F2 = ?F3"
    using appendInstr_mid [of P Ga "(?R, insertAfterPhis ci post') # Gb"] PFa PFb RP bGa bGb
    by simp
  have s9: "map_of ?F3 P = Some (pre' @ [?brR, Instr ?B (Br M)])"
    by (rule map_of_mid) (simp add: bGa PFa)
  have s10: "getPrevNode (pre' @ [?brR, Instr ?B (Br M)]) ?B = Some (ni (iids F))"
  proof -
    have "?B \<notin> iid ` set pre'" using BF idsF by auto
    then show ?thesis using getPrevNode_end [of "Instr ?B (Br M)" pre' ?brR] Bbr by simp
  qed
  have s11: "eraseFromParent (ni (iids F)) ?F3 = splitResult M ?R ?B Fa P pre ci post Fb"
  proof -
    have a: "ni (iids F) \<notin> set (iids Ga)" using brF idsF by simp
    have b: "ni (iids F) \<notin> iid ` set pre'" using brF idsF by auto
    have c: "ni (iids F) \<notin> set (iids ((?R, insertAfterPhis ci post') # Gb))"
      using brF idsF by (auto simp: set_insertAfterPhis)
    have d: "ni (iids F) \<notin> iid ` set [Instr ?B (Br M)]" using Bbr by simp
    have "eraseFromParent (ni (iids F)) ?F3 =
            Ga @ (P, pre' @ [Instr ?B (Br M)]) # (?R, insertAfterPhis ci post') # Gb"
      using eraseFromParent_mid [of ?brR Ga pre' "[Instr ?B (Br M)]"
              "(?R, insertAfterPhis ci post') # Gb" P] a b c d by simp
    then show ?thesis by (simp add: splitResult_def Ga_def Gb_def pre'_def post'_def)
  qed
  have "splitCallSite nb ni M ?c (F, Orig, Ret) =
          Some (splitResult M ?R ?B Fa P pre ci post Fb, Orig(?c \<mapsto> P), map_set P ?R Ret)"
    unfolding splitCallSite_def
    by (simp only: prod.case s1 s2 s3 s4 s5 s6 s7 s8 s9 s10 s11 bind.bind_lunit Let_def)
  with BF show ?thesis by blast
qed

section \<open>Projections of replaceSuccessorsPhiUsesWith\<close>

lemma replaceSuccessorsPhiUsesWith_set:
  "(b, is') \<in> set (replaceSuccessorsPhiUsesWith old new ss F) \<Longrightarrow>
   \<exists>is. (b, is) \<in> set F \<and> is' = phiRedirect (b \<in> set ss) old new is"
  by (auto simp: replaceSuccessorsPhiUsesWith_def phiRedirect_def)

lemma replaceSuccessorsPhiUsesWith_map_of:
  "map_of (replaceSuccessorsPhiUsesWith old new ss F) b =
     map_option (phiRedirect (b \<in> set ss) old new) (map_of F b)"
  by (induction F) auto

lemma replaceSuccessorsPhiUsesWith_nonphi_mem:
  "\<not> isPHI (kind i) \<Longrightarrow>
   i \<in> set (instrs (replaceSuccessorsPhiUsesWith old new ss F)) \<longleftrightarrow> i \<in> set (instrs F)"
  by (induction F) (auto simp: phiRedirect_set_nonphi)

lemma isCallInst_not_PHI: "isCallInst k \<Longrightarrow> \<not> isPHI k"
  by (cases k) auto

lemma isCallInst_not_Terminator: "isCallInst k \<Longrightarrow> \<not> isTerminator k"
  by (cases k) auto

section \<open>Projections of the result of one splitting step\<close>

lemma insertAfterPhis_ids:
  "map iid (insertAfterPhis ci (phiRedirect c old new post)) =
     map iid (takeWhile (\<lambda>i. isPHI (kind i)) post) @ iid ci
       # map iid (dropWhile (\<lambda>i. isPHI (kind i)) post)"
  by (simp add: insertAfterPhis_def phiRedirect_takeWhile phiRedirect_dropWhile)

lemma splitResult_bids:
  "bids (splitResult M R B Fa P pre ci post Fb) = bids Fa @ P # R # bids Fb"
  by (simp add: splitResult_def)

lemma splitResult_iids:
  "iids (splitResult M R B Fa P pre ci post Fb) =
     iids Fa @ map iid pre @ B # map iid (takeWhile (\<lambda>i. isPHI (kind i)) post) @ iid ci
       # map iid (dropWhile (\<lambda>i. isPHI (kind i)) post) @ iids Fb"
  by (simp add: splitResult_def insertAfterPhis_ids)

lemma ids_take_drop:
  "set (map iid (takeWhile Q post)) \<union> set (map iid (dropWhile Q post)) = iid ` set post"
  by (metis image_Un list.set_map set_append takeWhile_dropWhile_id)

lemma splitResult_iids_set:
  assumes "F = Fa @ (P, pre @ ci # post) # Fb"
  shows "set (iids (splitResult M R B Fa P pre ci post Fb)) = insert B (set (iids F))"
proof -
  have "set (iids (splitResult M R B Fa P pre ci post Fb)) =
          set (iids Fa) \<union> iid ` set pre \<union> {B} \<union>
          (set (map iid (takeWhile (\<lambda>i. isPHI (kind i)) post))
             \<union> set (map iid (dropWhile (\<lambda>i. isPHI (kind i)) post))) \<union> {iid ci} \<union> set (iids Fb)"
    unfolding splitResult_iids by (simp add: Un_ac insert_commute)
  also have "\<dots> = insert B (set (iids F))"
    unfolding ids_take_drop assms by (simp add: Un_ac insert_commute)
  finally show ?thesis .
qed

lemma splitResult_iids_length:
  assumes "F = Fa @ (P, pre @ ci # post) # Fb"
  shows "length (iids (splitResult M R B Fa P pre ci post Fb)) = Suc (length (iids F))"
proof -
  have "length (takeWhile (\<lambda>i. isPHI (kind i)) post) + length (dropWhile (\<lambda>i. isPHI (kind i)) post)
          = length post"
    by (metis length_append takeWhile_dropWhile_id)
  then show ?thesis unfolding splitResult_iids assms by simp
qed

lemma splitResult_distinct_iids:
  assumes F: "F = Fa @ (P, pre @ ci # post) # Fb" and di: "distinct (iids F)"
    and B: "B \<notin> set (iids F)"
  shows "distinct (iids (splitResult M R B Fa P pre ci post Fb))"
proof (rule card_distinct)
  have "card (set (iids (splitResult M R B Fa P pre ci post Fb))) = Suc (card (set (iids F)))"
    unfolding splitResult_iids_set [OF F] using B by simp
  also have "\<dots> = Suc (length (iids F))" using di by (simp add: distinct_card)
  also have "\<dots> = length (iids (splitResult M R B Fa P pre ci post Fb))"
    by (simp only: splitResult_iids_length [OF F])
  finally show "card (set (iids (splitResult M R B Fa P pre ci post Fb)))
                  = length (iids (splitResult M R B Fa P pre ci post Fb))" .
qed

lemma set_insertAfterPhis_redirect:
  "\<not> isPHI (kind i) \<Longrightarrow>
   i \<in> set (insertAfterPhis ci (phiRedirect c old new post)) \<longleftrightarrow> i = ci \<or> i \<in> set post"
  by (simp add: set_insertAfterPhis phiRedirect_set_nonphi)

lemma splitResult_nonphi_mem:
  assumes F: "F = Fa @ (P, pre @ ci # post) # Fb" and np: "\<not> isPHI (kind i)"
  shows "i \<in> set (instrs (splitResult M R B Fa P pre ci post Fb))
           \<longleftrightarrow> i = Instr B (Br M) \<or> i \<in> set (instrs F)"
proof -
  let ?ss = "successors (kind (last post))"
  have "i \<in> set (instrs (splitResult M R B Fa P pre ci post Fb)) \<longleftrightarrow>
        i \<in> set (instrs (replaceSuccessorsPhiUsesWith P R ?ss Fa))
        \<or> i \<in> set (phiRedirect (P \<in> set ?ss) P R pre) \<or> i = Instr B (Br M)
        \<or> i \<in> set (insertAfterPhis ci (phiRedirect (R \<in> set ?ss) P R post))
        \<or> i \<in> set (instrs (replaceSuccessorsPhiUsesWith P R ?ss Fb))"
    unfolding splitResult_def by auto
  also have "\<dots> \<longleftrightarrow> i \<in> set (instrs Fa) \<or> i \<in> set pre \<or> i = Instr B (Br M)
        \<or> (i = ci \<or> i \<in> set post) \<or> i \<in> set (instrs Fb)"
    by (simp only: replaceSuccessorsPhiUsesWith_nonphi_mem [OF np] phiRedirect_set_nonphi [OF np]
          set_insertAfterPhis_redirect [OF np])
  also have "\<dots> \<longleftrightarrow> i = Instr B (Br M) \<or> i \<in> set (instrs F)"
    unfolding F by auto
  finally show ?thesis .
qed

lemma splitResult_calls:
  assumes "F = Fa @ (P, pre @ ci # post) # Fb" and "isCallInst (kind i)"
  shows "i \<in> set (instrs (splitResult M R B Fa P pre ci post Fb)) \<longleftrightarrow> i \<in> set (instrs F)"
proof -
  have "i \<noteq> Instr B (Br M)" using assms(2) by auto
  then show ?thesis
    using splitResult_nonphi_mem [OF assms(1) isCallInst_not_PHI [OF assms(2)]] by simp
qed

lemma getTerminator_snoc: "isTerminator (kind t) \<Longrightarrow> getTerminator (is @ [t]) = Some t"
  by (simp add: getTerminator_def)

lemma last_insertAfterPhis:
  assumes ne: "is \<noteq> []" and np: "\<not> isPHI (kind (last is))"
  shows "last (insertAfterPhis ci is) = last is"
proof -
  have "dropWhile (\<lambda>i. isPHI (kind i)) is \<noteq> []" using ne np by (rule dropWhile_phi_nonempty)
  then obtain x xs where d: "dropWhile (\<lambda>i. isPHI (kind i)) is = x # xs"
    by (cases "dropWhile (\<lambda>i. isPHI (kind i)) is") auto
  have "is = takeWhile (\<lambda>i. isPHI (kind i)) is @ x # xs"
    using d by (metis takeWhile_dropWhile_id)
  then have "last is = last (x # xs)" by (metis last_appendR list.distinct(1))
  moreover have "last (insertAfterPhis ci is) = last (x # xs)"
    unfolding insertAfterPhis_def d by simp
  ultimately show ?thesis by simp
qed

lemma getTerminator_insertAfterPhis:
  assumes "post \<noteq> []" "isTerminator (kind (last post))"
  shows "getTerminator (insertAfterPhis ci (phiRedirect c old new post)) = Some (last post)"
proof -
  have np: "\<not> isPHI (kind (last post))" using assms(2) by (rule isTerminator_not_PHI)
  have l: "last (phiRedirect c old new post) = last post"
    using assms(1) np by (rule phiRedirect_last)
  have "last (insertAfterPhis ci (phiRedirect c old new post)) = last post"
    using last_insertAfterPhis [of "phiRedirect c old new post" ci] assms(1) np l by simp
  moreover have "insertAfterPhis ci (phiRedirect c old new post) \<noteq> []"
    by (simp add: insertAfterPhis_def)
  ultimately show ?thesis using assms(2) by (simp add: getTerminator_def)
qed

lemma splitResult_blocks:
  assumes "(b, is) \<in> set (splitResult M R B Fa P pre ci post Fb)"
  shows "(\<exists>is0. (b, is0) \<in> set Fa \<union> set Fb
            \<and> is = phiRedirect (b \<in> set (successors (kind (last post)))) P R is0)
         \<or> (b = P \<and> is = phiRedirect (P \<in> set (successors (kind (last post)))) P R pre
                            @ [Instr B (Br M)])
         \<or> (b = R \<and> is = insertAfterPhis ci
                            (phiRedirect (R \<in> set (successors (kind (last post)))) P R post))"
  using assms unfolding splitResult_def
  by (auto dest: replaceSuccessorsPhiUsesWith_set)

lemma splitResult_terminators:
  assumes F: "F = Fa @ (P, pre @ ci # post) # Fb"
    and tmF: "\<forall>(b, is) \<in> set F. b \<noteq> M \<longrightarrow> getTerminator is \<noteq> None"
    and pne: "post \<noteq> []" and tm: "isTerminator (kind (last post))"
  shows "\<forall>(b, is) \<in> set (splitResult M R B Fa P pre ci post Fb). b \<noteq> M \<longrightarrow> getTerminator is \<noteq> None"
proof -
  have "False" if m: "(b, is) \<in> set (splitResult M R B Fa P pre ci post Fb)" and bM: "b \<noteq> M"
    and n: "getTerminator is = None" for b "is"
  proof -
  from splitResult_blocks [OF m] consider
      (other) is0 where "(b, is0) \<in> set Fa \<union> set Fb"
        "is = phiRedirect (b \<in> set (successors (kind (last post)))) P R is0"
    | (origin) "is = phiRedirect (P \<in> set (successors (kind (last post)))) P R pre @ [Instr B (Br M)]"
    | (resume) "is = insertAfterPhis ci (phiRedirect (R \<in> set (successors (kind (last post)))) P R post)"
    by blast
  then show False
  proof cases
    case other
    from other(1) F have "(b, is0) \<in> set F" by auto
    with tmF bM have "getTerminator is0 \<noteq> None" by blast
    then obtain t where "getTerminator is0 = Some t" by blast
    from getTerminator_phiRedirect [OF this] other(2) n show False by simp
  next
    case origin
    with n show False by (simp add: getTerminator_snoc)
  next
    case resume
    with n getTerminator_insertAfterPhis [OF pne tm] show False by simp
  qed
  qed
  then show ?thesis by blast
qed

lemma map_of_append_notin: "b \<notin> set (bids Fa) \<Longrightarrow> map_of (Fa @ G) b = map_of G b"
  by (induction Fa) auto

lemma map_of_append_in: "b \<in> set (bids Fa) \<Longrightarrow> map_of (Fa @ G) b = map_of Fa b"
  by (induction Fa) auto

lemma splitResult_map_of_other:
  assumes "Q \<noteq> P" "Q \<noteq> R"
  shows "map_of (splitResult M R B Fa P pre ci post Fb) Q =
           map_option (phiRedirect (Q \<in> set (successors (kind (last post)))) P R)
             (map_of (Fa @ (P, pre @ ci # post) # Fb) Q)"
proof (cases "Q \<in> set (bids Fa)")
  case True
  then show ?thesis
    unfolding splitResult_def
    by (simp only: map_of_append_in replaceSuccessorsPhiUsesWith_bids
          replaceSuccessorsPhiUsesWith_map_of)
next
  case False
  let ?ren = "replaceSuccessorsPhiUsesWith P R (successors (kind (last post)))"
  have n: "Q \<notin> set (bids (?ren Fa))" using False by simp
  have a: "map_of (splitResult M R B Fa P pre ci post Fb) Q = map_of (?ren Fb) Q"
    unfolding splitResult_def map_of_append_notin [OF n] using assms by simp
  have b: "map_of (Fa @ (P, pre @ ci # post) # Fb) Q = map_of Fb Q"
    unfolding map_of_append_notin [OF False] using assms by simp
  show ?thesis unfolding a b by (rule replaceSuccessorsPhiUsesWith_map_of)
qed

lemma splitResult_map_of_P:
  assumes "P \<notin> set (bids Fa)"
  shows "map_of (splitResult M R B Fa P pre ci post Fb) P =
           Some (phiRedirect (P \<in> set (successors (kind (last post)))) P R pre @ [Instr B (Br M)])"
  unfolding splitResult_def by (rule map_of_mid) (simp add: assms)

lemma getParent_append_in:
  "x \<in> set (iids Fa) \<Longrightarrow> getParent (Fa @ G) x = getParent Fa x"
  by (induction Fa) auto

lemma getParent_ren [simp]:
  "getParent (replaceSuccessorsPhiUsesWith old new ss F) c = getParent F c"
  by (induction F) auto

lemma splitResult_getParent_before:
  assumes "x \<in> set (iids Fa) \<union> iid ` set pre"
  shows "getParent (splitResult M R B Fa P pre ci post Fb) x
           = getParent (Fa @ (P, pre @ ci # post) # Fb) x"
proof (cases "x \<in> set (iids Fa)")
  case True
  then have "x \<in> set (iids (replaceSuccessorsPhiUsesWith P R (successors (kind (last post))) Fa))"
    by simp
  from getParent_append_in [OF this] getParent_append_in [OF True]
  show ?thesis unfolding splitResult_def by simp
next
  case False
  with assms have x: "x \<in> iid ` set pre" by simp
  have a: "getParent (Fa @ (P, pre @ ci # post) # Fb) x = Some P"
    using False x by (intro getParent_mid) auto
  have b: "getParent (splitResult M R B Fa P pre ci post Fb) x = Some P"
    unfolding splitResult_def using False x by (intro getParent_mid) auto
  show ?thesis by (simp only: a b)
qed

lemma splitResult_getParent_site:
  assumes F: "F = Fa @ (P, pre @ ci # post) # Fb" and di: "distinct (iids F)"
    and B: "B \<notin> set (iids F)"
  shows "getParent (splitResult M R B Fa P pre ci post Fb) (iid ci) = Some R"
proof -
  let ?ss = "successors (kind (last post))"
  let ?G = "replaceSuccessorsPhiUsesWith P R ?ss Fa
              @ [(P, phiRedirect (P \<in> set ?ss) P R pre @ [Instr B (Br M)])]"
  have "iid ci \<noteq> B" using B F by auto
  then have a: "iid ci \<notin> set (iids ?G)" using di unfolding F by auto
  have b: "iid ci \<in> iid ` set (insertAfterPhis ci (phiRedirect (R \<in> set ?ss) P R post))"
    by (simp add: set_insertAfterPhis)
  have "getParent (?G @ (R, insertAfterPhis ci (phiRedirect (R \<in> set ?ss) P R post))
          # replaceSuccessorsPhiUsesWith P R ?ss Fb) (iid ci) = Some R"
    using a b by (rule getParent_mid)
  then show ?thesis unfolding splitResult_def by simp
qed

section \<open>The address-ordered map\<close>

lemma map_set_keys: "fst ` set (map_set k v m) = insert k (fst ` set m)"
proof (induction m)
  case Nil then show ?case by simp
next
  case (Cons a m)
  obtain k' v' where a: "a = (k', v')" by (cases a)
  show ?case using Cons.IH unfolding a by (simp add: insert_commute)
qed

lemma map_set_set: "k \<notin> fst ` set m \<Longrightarrow> set (map_set k v m) = insert (k, v) (set m)"
proof (induction m)
  case Nil then show ?case by simp
next
  case (Cons a m)
  obtain k' v' where a: "a = (k', v')" by (cases a)
  from Cons.prems a have "k \<noteq> k'" "k \<notin> fst ` set m" by auto
  with Cons.IH show ?case unfolding a by (simp add: insert_commute)
qed

lemma map_set_sorted:
  "sorted_wrt (<) (map fst m) \<Longrightarrow> sorted_wrt (<) (map fst (map_set k v m))"
proof (induction m)
  case Nil then show ?case by simp
next
  case (Cons a m)
  obtain k' v' where a: "a = (k', v')" by (cases a)
  from Cons.prems a have lt: "\<forall>x \<in> fst ` set m. k' < x" and s: "sorted_wrt (<) (map fst m)"
    by auto
  show ?case
  proof (cases "k < k'")
    case True
    with lt s a show ?thesis by (auto intro: less_trans)
  next
    case False
    note nlt = this
    show ?thesis
    proof (cases "k = k'")
      case True
      with lt s a show ?thesis by auto
    next
      case False
      with nlt have "k' < k" by simp
      with lt have "\<forall>x \<in> fst ` set (map_set k v m). k' < x" by (simp add: map_set_keys)
      with Cons.IH [OF s] a nlt False show ?thesis by auto
    qed
  qed
qed

lemma map_set_length: "k \<notin> fst ` set m \<Longrightarrow> length (map_set k v m) = Suc (length m)"
proof (induction m)
  case Nil then show ?case by simp
next
  case (Cons a m)
  obtain k' v' where a: "a = (k', v')" by (cases a)
  from Cons.prems a have "k \<noteq> k'" "k \<notin> fst ` set m" by auto
  with Cons.IH show ?case unfolding a by simp
qed

section \<open>Order of the call sites\<close>

lemma filter_split_at:
  assumes d: "distinct xs" and xs: "xs = A @ c # B" and f: "filter p xs = D @ c # C"
  shows "filter p A = D \<and> filter p B = C"
proof -
  have "c \<in> set (filter p xs)" using f by simp
  then have pc: "p c" by simp
  have cA: "c \<notin> set A" and cB: "c \<notin> set B" using d xs by auto
  have "distinct (D @ c # C)" using d f by (metis distinct_filter)
  then have cD: "c \<notin> set D" and cC: "c \<notin> set C" by auto
  have "filter p A @ c # filter p B = D @ c # C" using f pc xs by simp
  moreover have "c \<notin> set (filter p A)" "c \<notin> set (filter p B)" using cA cB by auto
  ultimately show ?thesis by (simp add: append_Cons_eq_iff)
qed

lemma split_at_id:
  "c \<in> iid ` set is \<Longrightarrow> \<exists>pre ci post. is = pre @ ci # post \<and> iid ci = c \<and> c \<notin> iid ` set pre"
proof (induction "is")
  case Nil then show ?case by simp
next
  case (Cons a "is")
  show ?case
  proof (cases "iid a = c")
    case True
    then have "a # is = [] @ a # is \<and> iid a = c \<and> c \<notin> iid ` set []" by simp
    then show ?thesis by (intro exI)
  next
    case False
    with Cons.prems have "c \<in> iid ` set is" by auto
    from Cons.IH [OF this] obtain pre ci post where
      e: "is = pre @ ci # post" and i: "iid ci = c" and n: "c \<notin> iid ` set pre" by auto
    from e i n False have "a # is = (a # pre) @ ci # post \<and> iid ci = c \<and> c \<notin> iid ` set (a # pre)"
      by auto
    then show ?thesis by (intro exI)
  qed
qed

lemma getTerminator_after_call:
  assumes "getTerminator (pre @ ci # post) \<noteq> None" and "\<not> isTerminator (kind ci)"
  shows "post \<noteq> [] \<and> isTerminator (kind (last post))"
  using assms by (cases "post = []") (auto simp: getTerminator_def split: if_splits)

section \<open>PHI redirection keeps instructions apart from PHI nodes\<close>

lemma replacePhiUsesWith_origin:
  "i \<in> set (replacePhiUsesWith old new is) \<Longrightarrow>
   \<exists>i0 \<in> set is. iid i0 = iid i \<and> (i0 = i \<or> (isPHI (kind i0) \<and> isPHI (kind i)))"
proof (induction "is")
  case Nil then show ?case by simp
next
  case (Cons a "is")
  show ?case
  proof (cases "isPHI (kind a)")
    case True
    then obtain inc where k: "kind a = PHI inc" by (cases "kind a") auto
    with Cons.prems have
      "i = Instr (iid a) (PHI (map (\<lambda>(v, b). (v, if b = old then new else b)) inc))
       \<or> i \<in> set (replacePhiUsesWith old new is)" by simp
    then show ?thesis
    proof
      assume "i = Instr (iid a) (PHI (map (\<lambda>(v, b). (v, if b = old then new else b)) inc))"
      with True show ?thesis by auto
    next
      assume "i \<in> set (replacePhiUsesWith old new is)"
      from Cons.IH [OF this] show ?thesis by auto
    qed
  next
    case False
    then have "replacePhiUsesWith old new (a # is) = a # is" by (cases "kind a") auto
    with Cons.prems show ?thesis by auto
  qed
qed

lemma phiRedirect_origin:
  "i \<in> set (phiRedirect c old new is) \<Longrightarrow>
   \<exists>i0 \<in> set is. iid i0 = iid i \<and> (i0 = i \<or> (isPHI (kind i0) \<and> isPHI (kind i)))"
  by (cases c) (auto simp: phiRedirect_def dest: replacePhiUsesWith_origin)

lemma replaceSuccessorsPhiUsesWith_origin:
  "i \<in> set (instrs (replaceSuccessorsPhiUsesWith old new ss F)) \<Longrightarrow>
   \<exists>i0 \<in> set (instrs F). iid i0 = iid i \<and> (i0 = i \<or> (isPHI (kind i0) \<and> isPHI (kind i)))"
proof (induction F)
  case Nil then show ?case by simp
next
  case (Cons B F)
  obtain b "is" where B: "B = (b, is)" by (cases B)
  from Cons.prems B have "i \<in> set (phiRedirect (b \<in> set ss) old new is)
      \<or> i \<in> set (instrs (replaceSuccessorsPhiUsesWith old new ss F))" by simp
  then show ?case
  proof
    assume "i \<in> set (phiRedirect (b \<in> set ss) old new is)"
    from phiRedirect_origin [OF this] B show ?thesis by auto
  next
    assume "i \<in> set (instrs (replaceSuccessorsPhiUsesWith old new ss F))"
    from Cons.IH [OF this] obtain i0 where "i0 \<in> set (instrs F)" "iid i0 = iid i"
      "i0 = i \<or> (isPHI (kind i0) \<and> isPHI (kind i))" by blast
    then show ?thesis unfolding B by (intro bexI [of _ i0]) auto
  qed
qed

lemma splitResult_origin:
  assumes F: "F = Fa @ (P, pre @ ci # post) # Fb"
    and i: "i \<in> set (instrs (splitResult M R B Fa P pre ci post Fb))"
  shows "i = Instr B (Br M) \<or>
         (\<exists>i0 \<in> set (instrs F). iid i0 = iid i \<and> (i0 = i \<or> (isPHI (kind i0) \<and> isPHI (kind i))))"
proof -
  let ?ss = "successors (kind (last post))"
  from i consider
      "i \<in> set (instrs (replaceSuccessorsPhiUsesWith P R ?ss Fa))"
    | "i \<in> set (phiRedirect (P \<in> set ?ss) P R pre)"
    | "i = Instr B (Br M)"
    | "i \<in> set (insertAfterPhis ci (phiRedirect (R \<in> set ?ss) P R post))"
    | "i \<in> set (instrs (replaceSuccessorsPhiUsesWith P R ?ss Fb))"
    unfolding splitResult_def by auto
  then show ?thesis
  proof cases
    case 1
    from replaceSuccessorsPhiUsesWith_origin [OF this] show ?thesis unfolding F by auto
  next
    case 2
    from phiRedirect_origin [OF this] show ?thesis unfolding F by auto
  next
    case 3
    then show ?thesis by simp
  next
    case 4
    then have "i = ci \<or> i \<in> set (phiRedirect (R \<in> set ?ss) P R post)"
      by (simp add: set_insertAfterPhis)
    then show ?thesis
    proof
      assume "i = ci" then show ?thesis unfolding F by auto
    next
      assume "i \<in> set (phiRedirect (R \<in> set ?ss) P R post)"
      from phiRedirect_origin [OF this] show ?thesis unfolding F by auto
    qed
  next
    case 5
    from replaceSuccessorsPhiUsesWith_origin [OF this] show ?thesis unfolding F by auto
  qed
qed

lemma successors_PHI: "isPHI k \<Longrightarrow> successors k = []"
  by (cases k) auto

lemma replacePhiUsesWith_last_successors:
  "is \<noteq> [] \<Longrightarrow>
   successors (kind (last (replacePhiUsesWith old new is))) = successors (kind (last is))"
proof (induction "is")
  case Nil then show ?case by simp
next
  case (Cons a "is")
  show ?case
  proof (cases "isPHI (kind a)")
    case True
    then obtain inc where k: "kind a = PHI inc" by (cases "kind a") auto
    show ?thesis
    proof (cases "is = []")
      case True
      with k show ?thesis by simp
    next
      case False
      with Cons.IH k show ?thesis by simp
    qed
  next
    case False
    then have "replacePhiUsesWith old new (a # is) = a # is" by (cases "kind a") auto
    then show ?thesis by simp
  qed
qed

lemma phiRedirect_last_successors:
  "is \<noteq> [] \<Longrightarrow> successors (kind (last (phiRedirect c old new is))) = successors (kind (last is))"
  by (simp add: phiRedirect_def replacePhiUsesWith_last_successors)

lemma splitInv_step:
  assumes inv: "splitInv M F0 done (c # cs) Ps Rs (F, Orig, Ret)"
    and fb: "freshAlloc nb" and fi: "freshAlloc ni"
  shows "\<exists>P R st'. splitCallSite nb ni M c (F, Orig, Ret) = Some st' \<and>
           splitInv M F0 (done @ [c]) cs (Ps @ [P]) (Rs @ [R]) st'"
proof -
  let ?p = "\<lambda>x. x \<in> set (done @ c # cs)"
  note I = inv [unfolded splitInv_def prod.case]
  from I have db: "distinct (bids F)" and di: "distinct (iids F)"
    and tmF: "\<forall>(b, is) \<in> set F. b \<noteq> M \<longrightarrow> getTerminator is \<noteq> None"
    and mM: "map_of F M = Some []"
    and ord: "filter ?p (iids F) = done @ c # cs"
    and sites: "\<forall>i \<in> set (instrs F). iid i \<in> set (done @ c # cs) \<longrightarrow> isCallInst (kind i)"
    and calls: "\<forall>i. isCallInst (kind i) \<longrightarrow> (i \<in> set (instrs F) \<longleftrightarrow> i \<in> set (instrs F0))"
    and bF: "set (bids F) = set (bids F0) \<union> set Rs"
    and iF: "set (iids F0) \<subseteq> set (iids F)"
    and lP: "length Ps = length done" and lR: "length Rs = length done"
    and orig: "map Orig done = map Some Ps"
    and dP: "distinct Ps" and dR: "distinct Rs" and RF0: "set Rs \<inter> set (bids F0) = {}"
    and PsF: "set Ps \<subseteq> set (bids F)"
    and ret: "set Ret = set (zip Ps Rs)" and srt: "sorted_wrt (<) (map fst Ret)"
    and par: "\<forall>j < length done. getParent F (done ! j) = Some (Rs ! j)"
    and origins: "\<forall>P \<in> set Ps. \<exists>is B. map_of F P = Some (is @ [Instr B (Br M)])
                     \<and> iid ` set is \<inter> set (c # cs) = {}"
    and edge: "noEdgeTo M [] F0 \<longrightarrow> noEdgeTo M Ps F"
    by - ((elim conjE, assumption)+)
  \<comment> \<open>where the call site is\<close>
  have dcs: "distinct (done @ c # cs)" using distinct_filter [OF di, of ?p] unfolding ord .
  have "set (filter ?p (iids F)) \<subseteq> set (iids F)" by (rule filter_is_subset)
  then have sitesF: "set (done @ c # cs) \<subseteq> set (iids F)" unfolding ord .
  then have cF: "c \<in> set (iids F)" by simp
  then obtain P where gp: "getParent F c = Some P"
    using getParent_None_iff [of F c] by (cases "getParent F c") auto
  from getParent_Some_decomp [OF gp] obtain Fa blk Fb where
    Fblk: "F = Fa @ (P, blk) # Fb" and cFa: "c \<notin> set (iids Fa)" and cblk: "c \<in> iid ` set blk"
    by blast
  from split_at_id [OF cblk] obtain pre ci post where
    blk: "blk = pre @ ci # post" and ci: "iid ci = c" and cpre: "c \<notin> iid ` set pre" by blast
  have F: "F = Fa @ (P, pre @ ci # post) # Fb" using Fblk blk by simp
  have ciF: "ci \<in> set (instrs F)" unfolding F by simp
  with sites ci have call: "isCallInst (kind ci)" by simp
  have np: "\<not> isPHI (kind ci)" using call by (rule isCallInst_not_PHI)
  have PFa: "P \<notin> set (bids Fa)" using db F by auto
  have mP: "map_of F P = Some (pre @ ci # post)" unfolding F by (rule map_of_mid [OF PFa])
  with mM have PM: "P \<noteq> M" by auto
  have "(P, pre @ ci # post) \<in> set F" unfolding F by simp
  with tmF PM have "getTerminator (pre @ ci # post) \<noteq> None" by blast
  from getTerminator_after_call [OF this isCallInst_not_Terminator [OF call]]
  have pne: "post \<noteq> []" and tm: "isTerminator (kind (last post))" by simp_all
  \<comment> \<open>the step\<close>
  let ?R = "nb (bids F)"
  from splitCallSite_closed [OF F db di pne tm np fb fi, of M Orig Ret] ci
  obtain B where BF: "B \<notin> set (iids F)"
    and step: "splitCallSite nb ni M c (F, Orig, Ret) =
                 Some (splitResult M ?R B Fa P pre ci post Fb, Orig(c \<mapsto> P), map_set P ?R Ret)"
    by auto
  let ?F' = "splitResult M ?R B Fa P pre ci post Fb"
  have RF: "?R \<notin> set (bids F)" using fb by (rule freshAllocD)
  have MF: "M \<in> set (bids F)" using mM by (rule map_of_bids)
  have RM: "?R \<noteq> M" using RF MF by auto
  have RP: "?R \<noteq> P" using RF F by auto
  \<comment> \<open>order of the call sites\<close>
  have idsF: "iids F = (iids Fa @ map iid pre) @ c # (map iid post @ iids Fb)"
    unfolding F using ci by simp
  from filter_split_at [OF di idsF ord]
  have fdone: "filter ?p (iids Fa @ map iid pre) = done"
    and fcs: "filter ?p (map iid post @ iids Fb) = cs" by simp_all
  have done_before: "set done \<subseteq> set (iids Fa) \<union> iid ` set pre"
  proof
    fix x assume "x \<in> set done"
    then have "x \<in> set (filter ?p (iids Fa @ map iid pre))" unfolding fdone .
    then show "x \<in> set (iids Fa) \<union> iid ` set pre" by auto
  qed
  have cs_after: "set cs \<subseteq> iid ` set post \<union> set (iids Fb)"
  proof
    fix x assume "x \<in> set cs"
    then have "x \<in> set (filter ?p (map iid post @ iids Fb))" unfolding fcs .
    then show "x \<in> iid ` set post \<union> set (iids Fb)" by auto
  qed
  have "iid ` set pre \<inter> (iid ` set post \<union> set (iids Fb)) = {}"
    using di unfolding F by auto
  with cs_after have pre_cs: "iid ` set pre \<inter> set cs = {}" by blast
  have c_done: "c \<notin> set done" and c_cs: "c \<notin> set cs" using dcs by auto
  \<comment> \<open>the invariant of the new state\<close>
  have n1: "distinct (bids ?F')"
    unfolding splitResult_bids using db RF unfolding F by auto
  have n2: "distinct (iids ?F')" using F di BF by (rule splitResult_distinct_iids)
  have n3: "\<forall>(b, is) \<in> set ?F'. b \<noteq> M \<longrightarrow> getTerminator is \<noteq> None"
    using F tmF pne tm by (rule splitResult_terminators)
  have n4: "map_of ?F' M = Some []"
    using splitResult_map_of_other [of M P ?R M B Fa pre ci post Fb] PM RM mM unfolding F by simp
  have ids': "set (iids ?F') = insert B (set (iids F))" using F by (rule splitResult_iids_set)
  have n6: "\<forall>i \<in> set (instrs ?F'). iid i \<in> set ((done @ [c]) @ cs) \<longrightarrow> isCallInst (kind i)"
  proof (intro ballI impI)
    fix i assume i': "i \<in> set (instrs ?F')" and idi: "iid i \<in> set ((done @ [c]) @ cs)"
    have "iid i \<in> set (iids F)" using idi sitesF by auto
    with BF have nB: "i \<noteq> Instr B (Br M)" by auto
    from splitResult_origin [OF F i'] nB obtain i0 where
      i0: "i0 \<in> set (instrs F)" "iid i0 = iid i" "i0 = i \<or> (isPHI (kind i0) \<and> isPHI (kind i))"
      by blast
    from idi i0(2) have "iid i0 \<in> set (done @ c # cs)" by simp
    with sites i0(1) have "isCallInst (kind i0)" by blast
    with i0(3) isCallInst_not_PHI show "isCallInst (kind i)" by auto
  qed
  have n5: "filter (\<lambda>x. x \<in> set ((done @ [c]) @ cs)) (iids ?F') = (done @ [c]) @ cs"
  proof -
    let ?tw = "takeWhile (\<lambda>i. isPHI (kind i)) post" and ?dw = "dropWhile (\<lambda>i. isPHI (kind i)) post"
    have pB: "\<not> ?p B" using BF sitesF by blast
    have ftw: "filter ?p (map iid ?tw) = []"
    proof -
      have "\<not> ?p (iid x)" if "x \<in> set ?tw" for x
      proof
        assume px: "?p (iid x)"
        from set_takeWhileD [OF that] have xp: "x \<in> set post" and "isPHI (kind x)" by simp_all
        note \<open>isPHI (kind x)\<close>
        moreover from xp have "x \<in> set (instrs F)" unfolding F by simp
        with sites px have "isCallInst (kind x)" by blast
        ultimately show False using isCallInst_not_PHI by blast
      qed
      then show ?thesis by (auto simp: filter_empty_conv)
    qed
    have "map iid ?tw @ map iid ?dw = map iid post" by (simp flip: map_append)
    then have "filter ?p (map iid post) = filter ?p (map iid ?tw @ map iid ?dw)" by simp
    then have "filter ?p (map iid post) = filter ?p (map iid ?tw) @ filter ?p (map iid ?dw)"
      by (simp only: filter_append)
    then have fdw: "filter ?p (map iid ?dw) = filter ?p (map iid post)" using ftw by simp
    have "filter ?p (iids ?F') = filter ?p (iids Fa @ map iid pre) @ c
            # filter ?p (map iid post @ iids Fb)"
      unfolding splitResult_iids using pB ftw fdw ci by simp
    then have "filter ?p (iids ?F') = done @ c # cs" unfolding fdone fcs .
    then show ?thesis by simp
  qed
  have n7: "\<forall>i. isCallInst (kind i) \<longrightarrow> (i \<in> set (instrs ?F') \<longleftrightarrow> i \<in> set (instrs F0))"
    using splitResult_calls [OF F] calls by simp
  have bids': "set (bids ?F') = insert ?R (set (bids F))"
    unfolding splitResult_bids F by auto
  have n8: "set (bids ?F') = set (bids F0) \<union> set (Rs @ [?R])" using bids' bF by auto
  have n9: "set (iids F0) \<subseteq> set (iids ?F')" using ids' iF by auto
  have n10: "length (Ps @ [P]) = length (done @ [c])" "length (Rs @ [?R]) = length (done @ [c])"
    using lP lR by simp_all
  have n11: "map (Orig(c \<mapsto> P)) (done @ [c]) = map Some (Ps @ [P])"
  proof -
    have "map (Orig(c \<mapsto> P)) done = map Orig done"
      by (rule map_cong [OF refl]) (use c_done in auto)
    with orig show ?thesis by simp
  qed
  have PPs: "P \<notin> set Ps"
  proof
    assume "P \<in> set Ps"
    with origins obtain is' B' where m: "map_of F P = Some (is' @ [Instr B' (Br M)])"
      and d: "iid ` set is' \<inter> set (c # cs) = {}" by blast
    from m mP have e: "pre @ ci # post = is' @ [Instr B' (Br M)]" by simp
    have "ci \<in> set (is' @ [Instr B' (Br M)])" unfolding e [symmetric] by simp
    then have "ci \<in> set is' \<or> ci = Instr B' (Br M)" by auto
    then show False
    proof
      assume "ci \<in> set is'" with d ci show False by auto
    next
      assume "ci = Instr B' (Br M)" with call show False by simp
    qed
  qed
  have RRs: "?R \<notin> set Rs" using RF bF by auto
  have n12: "distinct (Ps @ [P])" "distinct (Rs @ [?R])" using dP dR PPs RRs by simp_all
  have n13: "set (Rs @ [?R]) \<inter> set (bids F0) = {}" using RF0 RF bF by auto
  have PF: "P \<in> set (bids F)" unfolding F by simp
  have n14: "set (Ps @ [P]) \<subseteq> set (bids ?F')" using PsF PF bids' by auto
  have Pkeys: "P \<notin> fst ` set Ret"
  proof
    assume "P \<in> fst ` set Ret"
    then obtain r where "(P, r) \<in> set (zip Ps Rs)" unfolding ret by auto
    then have "P \<in> set Ps" by (rule set_zip_leftD)
    with PPs show False ..
  qed
  have n15: "set (map_set P ?R Ret) = set (zip (Ps @ [P]) (Rs @ [?R]))"
    using map_set_set [OF Pkeys] ret lP lR by simp
  have n16: "sorted_wrt (<) (map fst (map_set P ?R Ret))" using srt by (rule map_set_sorted)
  have n17: "\<forall>j < length (done @ [c]). getParent ?F' ((done @ [c]) ! j) = Some ((Rs @ [?R]) ! j)"
  proof (intro allI impI)
    fix j assume j: "j < length (done @ [c])"
    show "getParent ?F' ((done @ [c]) ! j) = Some ((Rs @ [?R]) ! j)"
    proof (cases "j < length done")
      case True
      then have "done ! j \<in> set done" by (rule nth_mem)
      with done_before have "done ! j \<in> set (iids Fa) \<union> iid ` set pre" by (rule subsetD)
      from splitResult_getParent_before [OF this, of M ?R B P ci post Fb] par \<open>j < length done\<close>
      have "getParent ?F' (done ! j) = Some (Rs ! j)" unfolding F by simp
      then show ?thesis using True lR by (simp add: nth_append)
    next
      case False
      with j have jl: "j = length done" by simp
      have "getParent ?F' (iid ci) = Some ?R" using F di BF by (rule splitResult_getParent_site)
      then show ?thesis using jl lR ci by (simp add: nth_append)
    qed
  qed
  have n18: "\<forall>Q \<in> set (Ps @ [P]). \<exists>is B'. map_of ?F' Q = Some (is @ [Instr B' (Br M)])
               \<and> iid ` set is \<inter> set cs = {}"
  proof
    fix Q assume Q: "Q \<in> set (Ps @ [P])"
    let ?c = "Q \<in> set (successors (kind (last post)))"
    show "\<exists>is B'. map_of ?F' Q = Some (is @ [Instr B' (Br M)]) \<and> iid ` set is \<inter> set cs = {}"
    proof (cases "Q = P")
      case True
      have "map_of ?F' P = Some (phiRedirect (P \<in> set (successors (kind (last post)))) P ?R pre
              @ [Instr B (Br M)])"
        using PFa by (rule splitResult_map_of_P)
      moreover have "iid ` set (phiRedirect (P \<in> set (successors (kind (last post)))) P ?R pre)
                       \<inter> set cs = {}"
        using pre_cs by simp
      ultimately show ?thesis unfolding True by blast
    next
      case False
      with Q have QPs: "Q \<in> set Ps" by simp
      with PsF RF have QR: "Q \<noteq> ?R" by auto
      from origins QPs obtain is' B' where m: "map_of F Q = Some (is' @ [Instr B' (Br M)])"
        and d: "iid ` set is' \<inter> set (c # cs) = {}" by blast
      have "map_of ?F' Q = Some (phiRedirect ?c P ?R (is' @ [Instr B' (Br M)]))"
        using splitResult_map_of_other [OF False QR, of M B Fa pre ci post Fb] m unfolding F by simp
      also have "phiRedirect ?c P ?R (is' @ [Instr B' (Br M)])
                   = phiRedirect ?c P ?R is' @ [Instr B' (Br M)]"
        by (rule phiRedirect_nonphi) simp
      finally have "map_of ?F' Q = Some (phiRedirect ?c P ?R is' @ [Instr B' (Br M)])" .
      moreover have "iid ` set (phiRedirect ?c P ?R is') \<inter> set cs = {}" using d by auto
      ultimately show ?thesis by blast
    qed
  qed
  have n19: "noEdgeTo M [] F0 \<longrightarrow> noEdgeTo M (Ps @ [P]) ?F'"
  proof
    assume "noEdgeTo M [] F0"
    with edge have e: "noEdgeTo M Ps F" by simp
    show "noEdgeTo M (Ps @ [P]) ?F'"
      unfolding noEdgeTo_def
    proof (intro ballI, clarify)
      fix b "is"
      assume m: "(b, is) \<in> set ?F'" and bP: "b \<notin> set (Ps @ [P])" and ne: "is \<noteq> []"
        and M: "M \<in> set (successors (kind (last is)))"
      from splitResult_blocks [OF m] bP consider
          (other) is0 where "(b, is0) \<in> set Fa \<union> set Fb"
            "is = phiRedirect (b \<in> set (successors (kind (last post)))) P ?R is0"
        | (resume) "is = insertAfterPhis ci
                      (phiRedirect (?R \<in> set (successors (kind (last post)))) P ?R post)"
        by auto
      then show False
      proof cases
        case other
        from other(1) have inF: "(b, is0) \<in> set F" unfolding F by auto
        from other(2) ne have ne0: "is0 \<noteq> []" by simp
        from other(2) M phiRedirect_last_successors [OF ne0]
        have "M \<in> set (successors (kind (last is0)))" by simp
        with e inF bP ne0 show False unfolding noEdgeTo_def by auto
      next
        case resume
        have "getTerminator is = Some (last post)"
          unfolding resume using pne tm by (rule getTerminator_insertAfterPhis)
        then have l: "last is = last post" by (auto simp: getTerminator_def split: if_splits)
        have inF: "(P, pre @ ci # post) \<in> set F" unfolding F by simp
        have lp: "last (pre @ ci # post) = last post" using pne by simp
        from e inF PPs have "M \<notin> set (successors (kind (last (pre @ ci # post))))"
          unfolding noEdgeTo_def by blast
        with M l lp show False by simp
      qed
    qed
  qed
  have "splitInv M F0 (done @ [c]) cs (Ps @ [P]) (Rs @ [?R])
          (?F', Orig(c \<mapsto> P), map_set P ?R Ret)"
    unfolding splitInv_def prod.case
    using n1 n2 n3 n4 n5 n6 n7 n8 n9 n10 n11 n12 n13 n14 n15 n16 n17 n18 n19
    by (intro conjI)
  with step show ?thesis by blast
qed

lemma splitLoop_inv:
  assumes "splitInv M F0 done cs Ps Rs st" and fb: "freshAlloc nb" and fi: "freshAlloc ni"
  shows "\<exists>st' Ps' Rs'. splitLoop nb ni M cs st = Some st' \<and>
           splitInv M F0 (done @ cs) [] Ps' Rs' st'"
  using assms(1)
proof (induction cs arbitrary: "done" Ps Rs st)
  case Nil
  then show ?case by auto
next
  case (Cons c cs)
  obtain F Orig Ret where st: "st = (F, Orig, Ret)" by (cases st)
  from splitInv_step [OF Cons.prems [unfolded st] fb fi] obtain P R st' where
    s: "splitCallSite nb ni M c (F, Orig, Ret) = Some st'"
    and i: "splitInv M F0 (done @ [c]) cs (Ps @ [P]) (Rs @ [R]) st'" by blast
  from Cons.IH [OF i] obtain st'' Ps' Rs' where
    "splitLoop nb ni M cs st' = Some st''" "splitInv M F0 ((done @ [c]) @ cs) [] Ps' Rs' st''"
    by blast
  with s st show ?case by auto
qed

lemma filter_ids_of_filter:
  assumes "distinct (map f xs)"
  shows "filter (\<lambda>x. x \<in> set (map f (filter Q xs))) (map f xs) = map f (filter Q xs)"
proof -
  have "\<And>x. x \<in> set xs \<Longrightarrow> (f x \<in> f ` {y \<in> set xs. Q y}) \<longleftrightarrow> Q x"
  proof -
    fix x assume x: "x \<in> set xs"
    have "inj_on f (set xs)" using assms by (simp add: distinct_map)
    then show "(f x \<in> f ` {y \<in> set xs. Q y}) \<longleftrightarrow> Q x"
      using x by (auto dest: inj_onD)
  qed
  then have "filter (\<lambda>x. f x \<in> f ` {y \<in> set xs. Q y}) xs = filter Q xs"
    by (intro filter_cong refl)
  then show ?thesis by (simp add: filter_map comp_def)
qed

lemma site_of_id:
  assumes "distinct (iids F)" "i \<in> set (instrs F)" "iid i \<in> set (collectCallSites F Target)"
  shows "isCallSiteOf Target i"
proof -
  from assms(3) obtain i' where i': "i' \<in> set (instrs F)" "isCallSiteOf Target i'" "iid i' = iid i"
    unfolding collectCallSites_def by auto
  have "inj_on iid (set (instrs F))" using assms(1) by (simp add: iids_def distinct_map)
  from inj_onD [OF this i'(3) i'(1) assms(2)] i'(2) show ?thesis by simp
qed

lemma splitInv_initial:
  assumes wf: "wellFormed F" and M: "M \<notin> set (bids F)"
  shows "splitInv M (F @ [(M, [])]) [] (collectCallSites F Target) [] []
           (F @ [(M, [])], Map.empty, [])"
proof -
  let ?cs = "collectCallSites F Target"
  from wf have db: "distinct (bids F)" and di: "distinct (iids F)"
    and tm: "\<forall>(b, is) \<in> set F. getTerminator is \<noteq> None"
    unfolding wellFormed_def list_all_iff by auto
  have 1: "distinct (bids (F @ [(M, [])]))" using db M by simp
  have 2: "distinct (iids (F @ [(M, [])]))" using di by simp
  have 3: "\<forall>(b, is) \<in> set (F @ [(M, [])]). b \<noteq> M \<longrightarrow> getTerminator is \<noteq> None"
    using tm by auto
  have 4: "map_of (F @ [(M, [])]) M = Some []"
    using map_of_mid [OF M, of "[]" "[]"] by simp
  have 5: "filter (\<lambda>x. x \<in> set ([] @ ?cs)) (iids (F @ [(M, [])])) = [] @ ?cs"
    using filter_ids_of_filter [of iid "instrs F" "isCallSiteOf Target"] di
    by (simp add: collectCallSites_def iids_def)
  have 6: "\<forall>i \<in> set (instrs (F @ [(M, [])])). iid i \<in> set ([] @ ?cs) \<longrightarrow> isCallInst (kind i)"
    using site_of_id [OF di] by (auto simp: isCallSiteOf_def)
  show ?thesis
    unfolding splitInv_def prod.case
    using 1 2 3 4 5 6 by (intro conjI) simp_all
qed

section \<open>Replacing all uses\<close>

lemma mapCallee_comp: "mapCallee g (mapCallee h cal) = mapCallee (g \<circ> h) cal"
  by (cases cal) auto

lemma mapOperands_comp: "mapOperands g (mapOperands h k) = mapOperands (g \<circ> h) k"
  by (cases k) (auto simp: mapCallee_comp)

lemma mapCallee_id: "mapCallee (\<lambda>v. v) cal = cal"
  by (cases cal) auto

lemma mapOperands_id: "mapOperands (\<lambda>v. v) k = k"
  by (cases k) (auto simp: mapCallee_id)

lemma mapInstr_simps [simp]:
  "iid (mapInstr f i) = iid i" "kind (mapInstr f i) = f (kind i)"
  "mapInstr f (Instr x k) = Instr x (f k)"
  by (simp_all add: mapInstr_def)

lemma mapInstr_comp: "mapInstr f (mapInstr g i) = mapInstr (f \<circ> g) i"
  by (simp add: mapInstr_def)

lemma mapInstr_id: "mapInstr (\<lambda>k. k) i = i"
  by (simp add: mapInstr_def)

lemma substSites_Nil: "substSites [] u = (\<lambda>v. v)"
  by (auto simp: substSites_def fun_eq_iff split: val.splits)

lemma substSites_Cons:
  "u \<notin> set cs \<Longrightarrow> substSites cs u \<circ> substV c u = substSites (c # cs) u"
  by (auto simp: substSites_def substV_def fun_eq_iff split: val.splits)

lemma mapInstr_mapOperands_id: "mapInstr (mapOperands (\<lambda>v. v)) i = i"
  by (cases i) (simp add: mapOperands_id)

lemma cleanBlock_Nil: "cleanBlock [] u is = is"
  by (induction "is") (simp_all add: cleanBlock_def substSites_Nil mapInstr_mapOperands_id)

lemma cleanBlock_Cons:
  assumes "u \<notin> set cs"
  shows "cleanBlock cs u (filter (\<lambda>i. iid i \<noteq> c) (map (mapInstr (mapOperands (substV c u))) is))
           = cleanBlock (c # cs) u is"
proof -
  have "mapInstr (mapOperands (substSites cs u)) \<circ> mapInstr (mapOperands (substV c u))
          = mapInstr (mapOperands (substSites (c # cs) u))"
    by (simp add: fun_eq_iff mapInstr_def mapOperands_comp substSites_Cons [OF assms])
  then have e: "\<And>i. mapInstr (mapOperands (substSites cs u)) (mapInstr (mapOperands (substV c u)) i)
          = mapInstr (mapOperands (substSites (c # cs) u)) i"
    by (metis comp_apply)
  show ?thesis
    unfolding cleanBlock_def
    by (induction "is") (auto simp: e)
qed

lemma replaceLoop_closed: "u \<notin> set cs \<Longrightarrow> replaceLoop u cs F = cleanFunc cs u F"
proof (induction cs arbitrary: F)
  case Nil
  show ?case by (induction F) (auto simp: cleanFunc_def cleanBlock_Nil)
next
  case (Cons c cs)
  then have u: "u \<notin> set cs" by simp
  have "replaceLoop u (c # cs) F = cleanFunc cs u (eraseFromParent c (replaceAllUsesWith c u F))"
    using Cons.IH [OF u] by simp
  also have "\<dots> = cleanFunc (c # cs) u F"
    unfolding cleanFunc_def eraseFromParent_def replaceAllUsesWith_def
    by (induction F) (auto simp: cleanBlock_Cons [OF u])
  finally show ?case .
qed

lemma cleanFunc_simps [simp]:
  "cleanFunc cs u [] = []"
  "cleanFunc cs u (F @ G) = cleanFunc cs u F @ cleanFunc cs u G"
  "cleanFunc cs u ((b, is) # F) = (b, cleanBlock cs u is) # cleanFunc cs u F"
  by (simp_all add: cleanFunc_def)

lemma cleanFunc_bids [simp]: "bids (cleanFunc cs u F) = bids F"
  by (induction F) auto

lemma cleanBlock_ids: "map iid (cleanBlock cs u is) = filter (\<lambda>x. x \<notin> set cs) (map iid is)"
  by (induction "is") (auto simp: cleanBlock_def)

lemma cleanFunc_iids: "iids (cleanFunc cs u F) = filter (\<lambda>x. x \<notin> set cs) (iids F)"
  by (induction F) (auto simp: cleanBlock_ids)

lemma cleanBlock_append: "cleanBlock cs u (xs @ ys) = cleanBlock cs u xs @ cleanBlock cs u ys"
  by (simp add: cleanBlock_def)

lemma cleanBlock_keep:
  "iid ` set is \<inter> set cs = {} \<Longrightarrow>
   cleanBlock cs u is = map (mapInstr (mapOperands (substSites cs u))) is"
  by (induction "is") (auto simp: cleanBlock_def)

section \<open>The PHI nodes of the arguments\<close>

lemma getInstr_skip: "iid i \<noteq> c \<Longrightarrow> getInstr (xs @ i # ys) c = getInstr (xs @ ys) c"
  by (induction xs) auto

lemma getArgOperand_callArgs:
  "getInstr (instrs F) c = Some (Instr c (Call cal args)) \<Longrightarrow> n < length args \<Longrightarrow>
   getArgOperand F c n = Some (callArgs F c ! n)"
  by (simp add: getArgOperand_def callArgs_def)

lemma argIncoming_closed:
  assumes "map Orig cs = map Some Ps"
    and "\<forall>c \<in> set cs. \<exists>cal args. getInstr (instrs F) c = Some (Instr c (Call cal args))
           \<and> k < length args"
  shows "argIncoming F Orig k cs = Some (zip (map (\<lambda>c. callArgs F c ! k) cs) Ps)"
  using assms
proof (induction cs arbitrary: Ps)
  case Nil then show ?case by simp
next
  case (Cons c cs)
  from Cons.prems(1) obtain P Ps' where Ps: "Ps = P # Ps'" and P: "Orig c = Some P"
    and r: "map Orig cs = map Some Ps'" by (cases Ps) auto
  from Cons.prems(2) obtain cal args where
    g: "getInstr (instrs F) c = Some (Instr c (Call cal args))" and k: "k < length args" by auto
  from Cons.prems(2) have "\<forall>c \<in> set cs. \<exists>cal args.
      getInstr (instrs F) c = Some (Instr c (Call cal args)) \<and> k < length args" by simp
  from Cons.IH [OF r this] getArgOperand_callArgs [OF g k] P Ps
  show ?case by simp
qed

lemma argPhiLoop_closed:
  assumes F: "F = Ga @ (M, X) # Gb" and MGa: "M \<notin> set (bids Ga)" and MGb: "M \<notin> set (bids Gb)"
    and orig: "map Orig cs = map Some Ps"
    and sites: "\<forall>c \<in> set cs. \<exists>cal args. getInstr (instrs F) c = Some (Instr c (Call cal args))
                  \<and> k + n \<le> length args"
    and fi: "freshAlloc ni"
  shows "\<exists>phis. argPhiLoop ni M cs Orig k n (F, as) =
             Some (Ga @ (M, X @ phis) # Gb, as @ map (\<lambda>p. VInstr (iid p)) phis)
           \<and> map kind phis = map (\<lambda>j. PHI (zip (map (\<lambda>c. callArgs F c ! j) cs) Ps)) [k..<k + n]
           \<and> distinct (map iid phis) \<and> set (map iid phis) \<inter> set (iids F) = {}"
  using F sites
proof (induction n arbitrary: k X as F)
  case 0
  have "argPhiLoop ni M cs Orig k 0 (F, as) = Some (Ga @ (M, X @ []) # Gb, as @ map (\<lambda>p. VInstr (iid p)) [])
      \<and> map kind [] = map (\<lambda>j. PHI (zip (map (\<lambda>c. callArgs F c ! j) cs) Ps)) [k..<k + 0]
      \<and> distinct (map iid []) \<and> set (map iid []) \<inter> set (iids F) = {}"
    using 0(1) by simp
  then show ?case by (intro exI)
next
  case (Suc n)
  note F = Suc.prems(1)
  let ?inc = "zip (map (\<lambda>c. callArgs F c ! k) cs) Ps"
  let ?p = "Instr (ni (iids F)) (PHI ?inc)"
  let ?F' = "Ga @ (M, X @ [?p]) # Gb"
  have pF: "ni (iids F) \<notin> set (iids F)" using fi by (rule freshAllocD)
  have "\<forall>c \<in> set cs. \<exists>cal args. getInstr (instrs F) c = Some (Instr c (Call cal args))
          \<and> k < length args" using Suc.prems(2) by fastforce
  from argIncoming_closed [OF orig this]
  have inc: "argIncoming F Orig k cs = Some ?inc" .
  have app: "appendInstr M ?p F = ?F'" unfolding F using MGa MGb by (rule appendInstr_mid)
  have same: "getInstr (instrs ?F') c = getInstr (instrs F) c" if "c \<in> set cs" for c
  proof -
    from Suc.prems(2) that obtain cal args where
      "getInstr (instrs F) c = Some (Instr c (Call cal args))" by blast
    from getInstr_Some [OF this] have "Instr c (Call cal args) \<in> set (instrs F)" by simp
    then have "iid (Instr c (Call cal args)) \<in> iid ` set (instrs F)" by (rule imageI)
    then have "c \<in> set (iids F)" by (simp add: iids_def)
    with pF have "iid ?p \<noteq> c" by auto
    from getInstr_skip [OF this, of "instrs Ga @ X" "instrs Gb"] show ?thesis unfolding F by simp
  qed
  then have args: "callArgs ?F' c = callArgs F c" if "c \<in> set cs" for c
    using that by (simp add: callArgs_def)
  have sites': "\<forall>c \<in> set cs. \<exists>cal args. getInstr (instrs ?F') c = Some (Instr c (Call cal args))
      \<and> Suc k + n \<le> length args" using Suc.prems(2) same by simp
  from Suc.IH [OF refl sites', of "as @ [VInstr (ni (iids F))]"] obtain phis where
    l: "argPhiLoop ni M cs Orig (Suc k) n (?F', as @ [VInstr (ni (iids F))]) =
          Some (Ga @ (M, (X @ [?p]) @ phis) # Gb,
                (as @ [VInstr (ni (iids F))]) @ map (\<lambda>p. VInstr (iid p)) phis)"
    and kinds: "map kind phis = map (\<lambda>j. PHI (zip (map (\<lambda>c. callArgs ?F' c ! j) cs) Ps))
                  [Suc k..<Suc k + n]"
    and d: "distinct (map iid phis)" and dis: "set (map iid phis) \<inter> set (iids ?F') = {}"
    by blast
  have kinds': "map kind phis = map (\<lambda>j. PHI (zip (map (\<lambda>c. callArgs F c ! j) cs) Ps))
                  [Suc k..<Suc k + n]"
    unfolding kinds using args by (intro map_cong refl arg_cong [where f=PHI]
        arg_cong2 [where f=zip]) simp
  have up: "[k..<k + Suc n] = k # [Suc k..<Suc k + n]" by (simp add: upt_rec)
  have ids': "set (iids ?F') = insert (ni (iids F)) (set (iids F))" unfolding F by auto
  have "argPhiLoop ni M cs Orig k (Suc n) (F, as) =
          Some (Ga @ (M, X @ (?p # phis)) # Gb, as @ map (\<lambda>p. VInstr (iid p)) (?p # phis))
      \<and> map kind (?p # phis) = map (\<lambda>j. PHI (zip (map (\<lambda>c. callArgs F c ! j) cs) Ps)) [k..<k + Suc n]
      \<and> distinct (map iid (?p # phis)) \<and> set (map iid (?p # phis)) \<inter> set (iids F) = {}"
    using inc app l kinds' d dis pF unfolding up ids' by (simp add: Let_def)
  then show ?case by (intro exI)
qed

section \<open>Updating one instruction\<close>

lemma updInstr_notin: "p \<notin> set (iids F) \<Longrightarrow> updInstr p f F = F"
proof (induction F)
  case Nil then show ?case by (simp add: updInstr_def)
next
  case (Cons B F)
  obtain b "is" where B: "B = (b, is)" by (cases B)
  from Cons.prems B have "p \<notin> iid ` set is" by auto
  then have "map (\<lambda>i. if iid i = p then mapInstr f i else i) is = is"
    by (induction "is") auto
  with Cons B show ?case by (simp add: updInstr_def)
qed

lemma updInstr_list_mid:
  "p \<notin> iid ` set xs \<Longrightarrow> p \<notin> iid ` set ys \<Longrightarrow>
   map (\<lambda>i. if iid i = p then mapInstr f i else i) (xs @ Instr p k # ys) = xs @ Instr p (f k) # ys"
proof -
  assume a: "p \<notin> iid ` set xs" and b: "p \<notin> iid ` set ys"
  have "\<And>zs. p \<notin> iid ` set zs \<Longrightarrow> map (\<lambda>i. if iid i = p then mapInstr f i else i) zs = zs"
  proof -
    fix zs show "p \<notin> iid ` set zs \<Longrightarrow> map (\<lambda>i. if iid i = p then mapInstr f i else i) zs = zs"
      by (induction zs) auto
  qed
  with a b show ?thesis by simp
qed

lemma updInstr_mid:
  assumes "p \<notin> set (iids A)" "p \<notin> iid ` set xs" "p \<notin> iid ` set ys" "p \<notin> set (iids B)"
  shows "updInstr p f (A @ (M, xs @ Instr p k # ys) # B) = A @ (M, xs @ Instr p (f k) # ys) # B"
proof -
  have "updInstr p f (A @ (M, xs @ Instr p k # ys) # B) =
          updInstr p f A @ (M, map (\<lambda>i. if iid i = p then mapInstr f i else i) (xs @ Instr p k # ys))
            # updInstr p f B"
    by (simp add: updInstr_def)
  then show ?thesis
    using updInstr_notin [OF assms(1)] updInstr_notin [OF assms(4)]
      updInstr_list_mid [OF assms(2,3)]
    by simp
qed

lemma switchLoop_closed:
  assumes "w \<noteq> sw"
    and "w \<notin> set (iids A)" "w \<notin> iid ` set xs" "w \<notin> iid ` set ys" "w \<notin> iid ` set zs"
      "w \<notin> set (iids B)"
    and "sw \<notin> set (iids A)" "sw \<notin> iid ` set xs" "sw \<notin> iid ` set ys" "sw \<notin> iid ` set zs"
      "sw \<notin> set (iids B)"
  shows "switchLoop w sw k kvs
           (A @ (M, xs @ Instr w (PHI inc) # ys @ Instr sw (Switch v d cases) # zs) # B)
         = A @ (M, xs @ Instr w (PHI (inc @ whereIncoming k kvs)) # ys
                   @ Instr sw (Switch v d (cases @ switchCases k kvs)) # zs) # B"
proof (induction kvs arbitrary: k inc cases)
  case Nil
  show ?case by simp
next
  case (Cons kv kvs)
  obtain P R where kv: "kv = (P, R)" by (cases kv)
  have a: "addIncoming w (VConstInt (of_nat k)) P
             (A @ (M, xs @ Instr w (PHI inc) # ys @ Instr sw (Switch v d cases) # zs) # B)
           = A @ (M, xs @ Instr w (PHI (inc @ [(VConstInt (of_nat k), P)])) # ys
                     @ Instr sw (Switch v d cases) # zs) # B"
  proof -
    have c: "w \<notin> iid ` set (ys @ Instr sw (Switch v d cases) # zs)"
      using assms(1,4,5) by (simp add: image_Un)
    show ?thesis
      unfolding addIncoming_def
      using updInstr_mid [OF assms(2,3) c assms(6), of "addIncomingK (VConstInt (of_nat k)) P" M "PHI inc"]
      by simp
  qed
  have b: "addCase sw (of_nat k) R
             (A @ (M, (xs @ Instr w (PHI (inc @ [(VConstInt (of_nat k), P)])) # ys)
                     @ Instr sw (Switch v d cases) # zs) # B)
           = A @ (M, (xs @ Instr w (PHI (inc @ [(VConstInt (of_nat k), P)])) # ys)
                     @ Instr sw (Switch v d (cases @ [(of_nat k, R)])) # zs) # B"
  proof -
    have c: "sw \<notin> iid ` set (xs @ Instr w (PHI (inc @ [(VConstInt (of_nat k), P)])) # ys)"
      using assms(1,8,9) by (simp add: image_Un)
    show ?thesis
      unfolding addCase_def
      using updInstr_mid [OF assms(7) c assms(10,11), of "addCaseK (of_nat k) R" M "Switch v d cases"]
      by simp
  qed
  show ?case
    unfolding kv using a b Cons.IH [of "Suc k" "inc @ [(VConstInt (of_nat k), P)]"
        "cases @ [(of_nat k, R)]"]
    by simp
qed

section \<open>Cleaning keeps terminators\<close>

lemma isTerminator_mapOperands [simp]: "isTerminator (mapOperands g k) = isTerminator k"
  by (cases k) auto

lemma isPHI_mapOperands [simp]: "isPHI (mapOperands g k) = isPHI k"
  by (cases k) auto

lemma successors_mapOperands [simp]: "successors (mapOperands g k) = successors k"
  by (cases k) auto

lemma getTerminator_cleanBlock:
  assumes "getTerminator is = Some t" "iid t \<notin> set cs"
  shows "getTerminator (cleanBlock cs u is) = Some (mapInstr (mapOperands (substSites cs u)) t)"
proof -
  from assms(1) have ne: "is \<noteq> []" and t: "t = last is" and tm: "isTerminator (kind t)"
    by (auto simp: getTerminator_def split: if_splits)
  then have "is = butlast is @ [t]" by simp
  then have "cleanBlock cs u is = cleanBlock cs u (butlast is) @ cleanBlock cs u [t]"
    by (metis cleanBlock_append)
  also have "cleanBlock cs u [t] = [mapInstr (mapOperands (substSites cs u)) t]"
    using assms(2) by (simp add: cleanBlock_def)
  finally show ?thesis using tm by (simp add: getTerminator_def)
qed

lemma getTerminator_not_lone_PHI: "getTerminator is \<noteq> None \<Longrightarrow> \<not> isLonePHI (b, is)"
proof (cases "is")
  case Nil
  assume "getTerminator is \<noteq> None" with Nil show ?thesis by (simp add: getTerminator_def)
next
  case (Cons i js)
  assume g: "getTerminator is \<noteq> None"
  show ?thesis
  proof (cases js)
    case Nil
    with Cons g have "isTerminator (kind i)" by (simp add: getTerminator_def split: if_splits)
    with Nil Cons isTerminator_not_PHI show ?thesis by simp
  next
    case (Cons j ks)
    with \<open>is = i # js\<close> show ?thesis by simp
  qed
qed

lemma find_Some_mem: "find Q xs = Some x \<Longrightarrow> x \<in> set xs \<and> Q x"
  by (induction xs) (auto split: if_splits)

lemma noLonePHI_I: "(\<And>b is. (b, is) \<in> set F \<Longrightarrow> \<not> isLonePHI (b, is)) \<Longrightarrow> noLonePHI F"
  by (auto simp: noLonePHI_def list_all_iff)

lemma isLonePHI_length: "length is \<noteq> 1 \<Longrightarrow> \<not> isLonePHI (b, is)"
proof (cases "is")
  case Nil then show ?thesis by simp
next
  case (Cons i js)
  assume "length is \<noteq> 1"
  with Cons obtain j ks where "js = j # ks" by (cases js) auto
  with Cons show ?thesis by simp
qed

lemma isUnreachableOnly_length: "length is \<noteq> 1 \<Longrightarrow> \<not> isUnreachableOnly (b, is)"
proof (cases "is")
  case Nil then show ?thesis by simp
next
  case (Cons i js)
  assume "length is \<noteq> 1"
  with Cons obtain j ks where "js = j # ks" by (cases js) auto
  with Cons show ?thesis by simp
qed

lemma mem_bids: "(b, is) \<in> set F \<Longrightarrow> b \<in> set (bids F)"
  by (force simp: bids_def)

lemma mergeTail_closed:
  assumes F2: "F2 = Ga @ (M, phis) # Gb"
    and db: "distinct (bids F2)"
    and cs: "set cs \<subseteq> set (iids F2)"
    and pcs: "iid ` set phis \<inter> set cs = {}"
    and tm: "\<forall>(b, is) \<in> set Ga \<union> set Gb. \<exists>t. getTerminator is = Some t \<and> iid t \<notin> set cs"
    and fb: "freshAlloc nb" and fi: "freshAlloc ni"
  shows "\<exists>u w sw ub extra.
           mergeTail nb ni T M cs Ret (F2, args) =
             Some (cleanFunc cs u Ga @ (M, mergedBlock cs u w sw ub T phis args Ret)
                     # cleanFunc cs u Gb @ extra, Some u)
         \<and> u \<notin> set (iids F2)
         \<and> w \<notin> insert u (set (iids (cleanFunc cs u F2)))
         \<and> sw \<notin> {u, w} \<union> set (iids (cleanFunc cs u F2)) \<union> set (iids extra)
         \<and> ((extra = [] \<and> ub \<in> set (bids F2) \<and> ub \<noteq> M)
              \<or> (\<exists>x. extra = [(ub, [Instr x Unreachable])] \<and> ub \<notin> set (bids F2)
                    \<and> x \<notin> {u, w} \<union> set (iids (cleanFunc cs u F2))))"
proof -
  let ?g = "mapInstr (mapOperands (substSites cs u))"
  define u where "u = ni (iids F2)"
  define A where "A = cleanFunc cs u Ga"
  define B where "B = cleanFunc cs u Gb"
  define phis' where "phis' = map (mapInstr (mapOperands (substSites cs u))) phis"
  define ucall where "ucall = Instr u (Call (Direct T) (map (substSites cs u) args))"
  have MGa: "M \<notin> set (bids Ga)" and MGb: "M \<notin> set (bids Gb)" using db F2 by auto
  have bA: "bids A = bids Ga" and bB: "bids B = bids Gb" by (simp_all add: A_def B_def)
  have uF: "u \<notin> set (iids F2)" unfolding u_def using fi by (rule freshAllocD)
  then have ucs: "u \<notin> set cs" using cs by auto
  have iA: "set (iids A) \<subseteq> set (iids Ga)" and iB: "set (iids B) \<subseteq> set (iids Gb)"
    by (auto simp: A_def B_def cleanFunc_iids)
  have ip: "map iid phis' = map iid phis" by (simp add: phis'_def)
  then have sp: "iid ` set phis' = iid ` set phis" by (metis list.set_map)
  have uA: "u \<notin> set (iids A)" and uB: "u \<notin> set (iids B)" and up: "u \<notin> iid ` set phis'"
    using uF iA iB sp unfolding F2 by auto
  \<comment> \<open>lines 119-127\<close>
  have F3: "appendInstr M (Instr u (Call (Direct T) args)) F2
              = Ga @ (M, phis @ [Instr u (Call (Direct T) args)]) # Gb"
    unfolding F2 using MGa MGb by (rule appendInstr_mid)
  have cM: "cleanBlock cs u (phis @ [Instr u (Call (Direct T) args)]) = phis' @ [ucall]"
  proof -
    have "iid ` set (phis @ [Instr u (Call (Direct T) args)]) \<inter> set cs = {}"
      using pcs ucs by auto
    from cleanBlock_keep [OF this] show ?thesis by (simp add: phis'_def ucall_def)
  qed
  let ?F4 = "A @ (M, phis' @ [ucall]) # B"
  have F4: "replaceLoop u cs (Ga @ (M, phis @ [Instr u (Call (Direct T) args)]) # Gb) = ?F4"
    unfolding replaceLoop_closed [OF ucs] by (simp add: cM A_def B_def)
  have ids4: "set (iids ?F4) = insert u (set (iids (cleanFunc cs u F2)))"
    unfolding F2 by (auto simp: A_def B_def phis'_def ucall_def cleanBlock_keep [OF pcs])
  \<comment> \<open>lines 130-131\<close>
  define w where "w = ni (iids ?F4)"
  have w4: "w \<notin> set (iids ?F4)" unfolding w_def using fi by (rule freshAllocD)
  then have wu: "w \<noteq> u" and wA: "w \<notin> set (iids A)" and wB: "w \<notin> set (iids B)"
    and wp: "w \<notin> iid ` set phis'" by (auto simp: ucall_def)
  let ?wi = "Instr w (PHI [])"
  let ?F5 = "A @ (M, phis' @ [?wi, ucall]) # B"
  have F5: "insertBefore u ?wi ?F4 = ?F5"
    using insertBefore_mid [of ucall A phis' B ?wi M "[]"] uA uB up by (simp add: ucall_def)
  \<comment> \<open>line 135: the unreachable block\<close>
  have nl: "noLonePHI ?F5"
  proof (rule noLonePHI_I)
    fix b "is" assume "(b, is) \<in> set ?F5"
    then consider "(b, is) \<in> set A \<union> set B" | "is = phis' @ [?wi, ucall]" by auto
    then show "\<not> isLonePHI (b, is)"
    proof cases
      case 1
      then obtain is0 where "(b, is0) \<in> set Ga \<union> set Gb" and e: "is = cleanBlock cs u is0"
        by (auto simp: A_def B_def cleanFunc_def)
      with tm obtain t where "getTerminator is0 = Some t" "iid t \<notin> set cs" by blast
      from getTerminator_cleanBlock [OF this, of u] e have "getTerminator is \<noteq> None" by simp
      then show ?thesis by (rule getTerminator_not_lone_PHI)
    next
      case 2
      then have "length is \<noteq> 1" by simp
      then show ?thesis by (rule isLonePHI_length)
    qed
  qed
  define ub where "ub = (case find isUnreachableOnly ?F5 of Some (b, is) \<Rightarrow> b | None \<Rightarrow> nb (bids ?F5))"
  define extra where "extra = (case find isUnreachableOnly ?F5 of Some (b, is) \<Rightarrow> []
      | None \<Rightarrow> [(nb (bids ?F5), [Instr (ni (iids ?F5)) Unreachable])])"
  have gu: "getUnreachableBlock nb ni ?F5 = Some (ub, ?F5 @ extra)"
    unfolding getUnreachableBlock_eq [OF nl fb] ub_def extra_def
    by (auto split: option.splits)
  have ids5: "set (iids ?F5) = insert w (set (iids ?F4))" by auto
  have bids5: "bids ?F5 = bids F2" unfolding F2 by (simp add: bA bB)
  have ex: "(extra = [] \<and> ub \<in> set (bids F2) \<and> ub \<noteq> M)
            \<or> (\<exists>x. extra = [(ub, [Instr x Unreachable])] \<and> ub \<notin> set (bids F2)
                  \<and> x \<notin> {u, w} \<union> set (iids (cleanFunc cs u F2)))"
  proof (cases "find isUnreachableOnly ?F5")
    case None
    have "nb (bids ?F5) \<notin> set (bids ?F5)" using fb by (rule freshAllocD)
    moreover have "ni (iids ?F5) \<notin> set (iids ?F5)" using fi by (rule freshAllocD)
    ultimately show ?thesis
      unfolding ub_def extra_def None bids5 ids5 ids4 by auto
  next
    case (Some bl)
    obtain b "is" where bl: "bl = (b, is)" by (cases bl)
    from find_Some_mem [OF Some] bl have m: "(b, is) \<in> set ?F5" and q: "isUnreachableOnly (b, is)"
      by simp_all
    have "b \<noteq> M"
    proof
      assume "b = M"
      with m MGa MGb bA bB mem_bids [of M "is" A] mem_bids [of M "is" B]
      have "is = phis' @ [?wi, ucall]" by auto
      then have "length is \<noteq> 1" by simp
      from isUnreachableOnly_length [OF this] q show False by simp
    qed
    moreover from m have "b \<in> set (bids ?F5)" by (rule mem_bids)
    ultimately show ?thesis unfolding ub_def extra_def Some bl bids5 by simp
  qed
  \<comment> \<open>lines 134-135\<close>
  define sw where "sw = ni (iids (?F5 @ extra))"
  have sw6: "sw \<notin> set (iids (?F5 @ extra))" unfolding sw_def using fi by (rule freshAllocD)
  then have swu: "sw \<noteq> u" and sww: "sw \<noteq> w" and swA: "sw \<notin> set (iids A)"
    and swp: "sw \<notin> iid ` set phis'" and swB: "sw \<notin> set (iids (B @ extra))"
    by (auto simp: ucall_def)
  have Mex: "M \<notin> set (bids (B @ extra))"
    using ex MGb bB db unfolding F2 by auto
  let ?swi = "Instr sw (Switch (VInstr w) ub [])"
  let ?F7 = "A @ (M, phis' @ [?wi, ucall, ?swi]) # (B @ extra)"
  have F7: "appendInstr M ?swi (?F5 @ extra) = ?F7"
    using appendInstr_mid [of M A "B @ extra" ?swi "phis' @ [?wi, ucall]"] MGa bA Mex by simp
  \<comment> \<open>lines 137-143\<close>
  have wex: "w \<notin> set (iids (B @ extra))"
    using wB ex by auto
  have F8: "switchLoop w sw 0 Ret ?F7 =
              A @ (M, phis' @ Instr w (PHI ([] @ whereIncoming 0 Ret)) # [ucall]
                    @ Instr sw (Switch (VInstr w) ub ([] @ switchCases 0 Ret)) # []) # (B @ extra)"
    using switchLoop_closed [of w sw A phis' "[ucall]" "[]" "B @ extra" 0 Ret M "[]" "VInstr w" ub "[]"]
      sww wA wp wu wex swA swp swu swB
    by (simp add: ucall_def)
  have res: "mergeTail nb ni T M cs Ret (F2, args) =
          Some (A @ (M, mergedBlock cs u w sw ub T phis args Ret) # B @ extra, Some u)"
    unfolding mergeTail_def prod.case Let_def u_def [symmetric] F3 F4 w_def [symmetric] F5 gu
      bind.bind_lunit sw_def [symmetric] F7 F8
    by (simp add: mergedBlock_def phis'_def ucall_def)
  have wfact: "w \<notin> insert u (set (iids (cleanFunc cs u F2)))" using w4 unfolding ids4 .
  have ids6: "set (iids (?F5 @ extra)) = set (iids ?F5) \<union> set (iids extra)"
    by (simp only: iids_simps(3) set_append)
  have swfact: "sw \<notin> {u, w} \<union> set (iids (cleanFunc cs u F2)) \<union> set (iids extra)"
    using sw6 unfolding ids6 ids5 ids4 by auto
  show ?thesis
    using res uF wfact swfact ex unfolding A_def B_def by blast
qed

lemma collectCallSites_instr:
  assumes "c \<in> set (collectCallSites F T)"
  shows "\<exists>args. Instr c (Call (Direct T) args) \<in> set (instrs F)"
proof -
  from assms obtain i where i: "i \<in> set (instrs F)" "isCallSiteOf T i" "iid i = c"
    unfolding collectCallSites_def by auto
  obtain x k where ik: "i = Instr x k" by (cases i)
  from i(2) ik obtain cal args where k: "k = Call cal args"
    unfolding isCallSiteOf_def by (cases k) auto
  from i(2) ik k have "cal = Direct T" unfolding isCallSiteOf_def by (cases cal) auto
  with i ik k show ?thesis by auto
qed

lemma mem_instrs: "(b, is) \<in> set F \<Longrightarrow> i \<in> set is \<Longrightarrow> i \<in> set (instrs F)"
  by (force simp: instrs_def)

lemma callArgs_of_instr:
  "distinct (iids F) \<Longrightarrow> Instr c (Call cal args) \<in> set (instrs F) \<Longrightarrow> callArgs F c = args"
  using getInstr_distinct [of "instrs F" "Instr c (Call cal args)"]
  by (simp add: callArgs_def iids_def)

lemma mergeCallSites_closed:
  assumes wf: "wellFormed F" and fb: "freshAlloc nb" and fi: "freshAlloc ni"
    and two: "2 \<le> length (collectCallSites F T)"
    and args: "sitesHaveArgs arg_size F T"
  shows "\<exists>cs M F1 Orig Ret Ps Rs Ga Gb phis u w sw ub extra.
           mergeOutcome nb ni arg_size F T cs M F1 Orig Ret Ps Rs Ga Gb phis u w sw ub extra"
proof -
  define cs where "cs = collectCallSites F T"
  define M where "M = nb (bids F)"
  let ?F0 = "F @ [(M, [])]"
  have MF: "M \<notin> set (bids F)" unfolding M_def using fb by (rule freshAllocD)
  from wf have diF: "distinct (iids F)" unfolding wellFormed_def by simp
  from splitLoop_inv [OF splitInv_initial [OF wf MF, of T] fb fi] obtain st' Ps Rs where
    loop: "splitLoop nb ni M cs (?F0, Map.empty, []) = Some st'"
    and inv: "splitInv M ?F0 cs [] Ps Rs st'" unfolding cs_def by auto
  obtain F1 Orig Ret where st': "st' = (F1, Orig, Ret)" by (cases st')
  note I = inv [unfolded st' splitInv_def prod.case]
  from I have db: "distinct (bids F1)" and di: "distinct (iids F1)"
    and tmF: "\<forall>(b, is) \<in> set F1. b \<noteq> M \<longrightarrow> getTerminator is \<noteq> None"
    and mM: "map_of F1 M = Some []"
    and ord: "filter (\<lambda>x. x \<in> set (cs @ [])) (iids F1) = cs @ []"
    and sites: "\<forall>i \<in> set (instrs F1). iid i \<in> set (cs @ []) \<longrightarrow> isCallInst (kind i)"
    and calls: "\<forall>i. isCallInst (kind i) \<longrightarrow> (i \<in> set (instrs F1) \<longleftrightarrow> i \<in> set (instrs ?F0))"
    and orig: "map Orig cs = map Some Ps"
    by - ((elim conjE, assumption)+)
  from map_of_decomp [OF mM] obtain Ga Gb where F1: "F1 = Ga @ (M, []) # Gb" by blast
  have MGa: "M \<notin> set (bids Ga)" and MGb: "M \<notin> set (bids Gb)" using db F1 by auto
  have "set (filter (\<lambda>x. x \<in> set (cs @ [])) (iids F1)) \<subseteq> set (iids F1)" by (rule filter_is_subset)
  then have csF1: "set cs \<subseteq> set (iids F1)" unfolding ord by simp
  \<comment> \<open>the call sites are still the calls they were\<close>
  have site: "\<exists>cal args. getInstr (instrs F1) c = Some (Instr c (Call cal args))
                \<and> callArgs F1 c = callArgs F c \<and> arg_size T \<le> length args"
    if c: "c \<in> set cs" for c
  proof -
    from collectCallSites_instr [OF c [unfolded cs_def]] obtain as where
      a: "Instr c (Call (Direct T) as) \<in> set (instrs F)" by blast
    with calls have b: "Instr c (Call (Direct T) as) \<in> set (instrs F1)" by simp
    have g: "getInstr (instrs F1) (iid (Instr c (Call (Direct T) as))) = Some (Instr c (Call (Direct T) as))"
      using di b by (intro getInstr_distinct) (simp_all add: iids_def)
    have e1: "callArgs F c = as" using diF a by (rule callArgs_of_instr)
    have e2: "callArgs F1 c = as" using di b by (rule callArgs_of_instr)
    from args c have "arg_size T \<le> length (callArgs F c)"
      unfolding sitesHaveArgs_def cs_def list_all_iff by blast
    with g e1 e2 show ?thesis by auto
  qed
  \<comment> \<open>lines 101-116\<close>
  have sites0: "\<forall>c \<in> set cs. \<exists>cal args. getInstr (instrs F1) c = Some (Instr c (Call cal args))
                  \<and> 0 + arg_size T \<le> length args"
    using site by fastforce
  from argPhiLoop_closed [OF F1 MGa MGb orig sites0 fi, of "[]"] obtain phis where
    phi: "argPhiLoop ni M cs Orig 0 (arg_size T) (F1, []) =
            Some (Ga @ (M, [] @ phis) # Gb, [] @ map (\<lambda>p. VInstr (iid p)) phis)"
    and kinds1: "map kind phis = map (\<lambda>j. PHI (zip (map (\<lambda>c. callArgs F1 c ! j) cs) Ps))
                   [0..<0 + arg_size T]"
    and dphi: "distinct (map iid phis)" and phiF1: "set (map iid phis) \<inter> set (iids F1) = {}"
    by blast
  have kinds: "map kind phis = map (\<lambda>j. PHI (zip (map (\<lambda>c. callArgs F c ! j) cs) Ps))
                 [0..<arg_size T]"
  proof -
    have "callArgs F1 c = callArgs F c" if "c \<in> set cs" for c using site [OF that] by blast
    then have e: "map (\<lambda>c. callArgs F1 c ! j) cs = map (\<lambda>c. callArgs F c ! j) cs" for j
      by (intro map_cong refl) simp
    show ?thesis unfolding kinds1 by (simp only: e add_0)
  qed
  \<comment> \<open>lines 118-145\<close>
  let ?F2 = "Ga @ (M, phis) # Gb"
  have db2: "distinct (bids ?F2)" using db unfolding F1 by simp
  have cs2: "set cs \<subseteq> set (iids ?F2)" using csF1 unfolding F1 by auto
  have pcs: "iid ` set phis \<inter> set cs = {}" using phiF1 csF1 by auto
  have tm2: "\<forall>(b, is) \<in> set Ga \<union> set Gb. \<exists>t. getTerminator is = Some t \<and> iid t \<notin> set cs"
  proof (clarify)
    fix b "is" assume m: "(b, is) \<in> set Ga \<union> set Gb"
    then have inF1: "(b, is) \<in> set F1" unfolding F1 by auto
    from m MGa MGb mem_bids [of b "is" Ga] mem_bids [of b "is" Gb] have "b \<noteq> M" by auto
    with tmF inF1 obtain t where t: "getTerminator is = Some t" by blast
    then have tl: "t \<in> set is" and tt: "isTerminator (kind t)"
      by (auto simp: getTerminator_def split: if_splits)
    from inF1 tl have "t \<in> set (instrs F1)" by (rule mem_instrs)
    with sites tt isCallInst_not_Terminator have "iid t \<notin> set cs" by auto
    with t show "\<exists>t. getTerminator is = Some t \<and> iid t \<notin> set cs" by blast
  qed
  from mergeTail_closed [OF refl db2 cs2 pcs tm2 fb fi, of T Ret "map (\<lambda>p. VInstr (iid p)) phis"]
  obtain u w sw ub extra where
    tail: "mergeTail nb ni T M cs Ret (?F2, map (\<lambda>p. VInstr (iid p)) phis) =
             Some (cleanFunc cs u Ga
                     @ (M, mergedBlock cs u w sw ub T phis (map (\<lambda>p. VInstr (iid p)) phis) Ret)
                     # cleanFunc cs u Gb @ extra, Some u)"
    and u: "u \<notin> set (iids ?F2)"
    and w: "w \<notin> insert u (set (iids (cleanFunc cs u ?F2)))"
    and sw: "sw \<notin> {u, w} \<union> set (iids (cleanFunc cs u ?F2)) \<union> set (iids extra)"
    and ex: "(extra = [] \<and> ub \<in> set (bids ?F2) \<and> ub \<noteq> M)
              \<or> (\<exists>x. extra = [(ub, [Instr x Unreachable])] \<and> ub \<notin> set (bids ?F2)
                    \<and> x \<notin> {u, w} \<union> set (iids (cleanFunc cs u ?F2)))"
    by blast
  have b2: "bids ?F2 = bids F1" unfolding F1 by simp
  have u': "u \<notin> set (iids F1) \<union> iid ` set phis" using u unfolding F1 by auto
  have ncs: "cs \<noteq> []" "length cs \<noteq> 1" using two unfolding cs_def by auto
  have res: "mergeCallSites nb ni arg_size F T =
       Some (cleanFunc cs u Ga
               @ (M, mergedBlock cs u w sw ub T phis (map (\<lambda>p. VInstr (iid p)) phis) Ret)
               # cleanFunc cs u Gb @ extra, Some u)"
    unfolding mergeCallSites_def Let_def cs_def [symmetric] createBlock_def M_def [symmetric]
    using ncs loop phi tail by (simp add: st')
  have "mergeOutcome nb ni arg_size F T cs M F1 Orig Ret Ps Rs Ga Gb phis u w sw ub extra"
    unfolding mergeOutcome_def
    using cs_def M_def MF loop [unfolded st'] inv [unfolded st'] F1 kinds dphi phiF1 res u' w sw
      ex [unfolded b2]
    by (intro conjI)
  then show ?thesis by blast
qed

lemma getCalledFunction_mapOperands [simp]:
  "getCalledFunction (mapOperands g k) = getCalledFunction k"
proof (cases k)
  case (Call cal args)
  then show ?thesis by (cases cal) auto
qed auto

lemma isCallInst_mapOperands [simp]: "isCallInst (mapOperands g k) = isCallInst k"
  by (cases k) auto

lemma isInlineAsm_mapOperands [simp]: "isInlineAsm (mapOperands g k) = isInlineAsm k"
proof (cases k)
  case (Call cal args)
  then show ?thesis by (cases cal) auto
qed auto

lemma getCalledFunction_Some: "getCalledFunction k = Some T \<longleftrightarrow> (\<exists>args. k = Call (Direct T) args)"
proof (cases k)
  case (Call cal args)
  then show ?thesis by (cases cal) auto
qed auto

lemma cleanBlock_mem:
  "i' \<in> set (cleanBlock cs u is) \<longleftrightarrow>
     (\<exists>i \<in> set is. iid i \<notin> set cs \<and> i' = mapInstr (mapOperands (substSites cs u)) i)"
  by (auto simp: cleanBlock_def)

lemma cleanFunc_mem:
  "i' \<in> set (instrs (cleanFunc cs u G)) \<longleftrightarrow>
     (\<exists>i \<in> set (instrs G). iid i \<notin> set cs \<and> i' = mapInstr (mapOperands (substSites cs u)) i)"
  by (induction G) (auto simp: cleanBlock_mem)

lemma callsOf_simps [simp]:
  "callsOf T [] = []" "callsOf T (F @ G) = callsOf T F @ callsOf T G"
  "callsOf T ((b, is) # F) = filter (\<lambda>i. getCalledFunction (kind i) = Some T) is @ callsOf T F"
  by (simp_all add: callsOf_def)

lemma callSite_collected:
  "i \<in> set (instrs F) \<Longrightarrow> getCalledFunction (kind i) = Some T \<Longrightarrow>
   iid i \<in> set (collectCallSites F T)"
  by (auto simp: collectCallSites_def isCallSiteOf_def getCalledFunction_Some)

lemma phis_are_PHI:
  assumes "map kind phis = map (\<lambda>j. PHI (f j)) js" "p \<in> set phis"
  shows "isPHI (kind p)"
proof -
  from assms(2) have "kind p \<in> set (map kind phis)" by simp
  then have "kind p \<in> set (map (\<lambda>j. PHI (f j)) js)" unfolding assms(1) .
  then show ?thesis by auto
qed

lemma mergeOutcome_callsOf:
  assumes "mergeOutcome nb ni arg_size F T cs M F1 Orig Ret Ps Rs Ga Gb phis u w sw ub extra"
  shows "\<exists>F' args. mergeCallSites nb ni arg_size F T = Some (F', Some u) \<and>
           callsOf T F' = [Instr u (Call (Direct T) args)] \<and> u \<notin> set (iids F)
           \<and> length args = arg_size T"
proof -
  note O = assms [unfolded mergeOutcome_def]
  from O have cs: "cs = collectCallSites F T"
    and inv: "splitInv M (F @ [(M, [])]) cs [] Ps Rs (F1, Orig, Ret)"
    and F1: "F1 = Ga @ (M, []) # Gb"
    and kinds: "map kind phis = map (\<lambda>j. PHI (zip (map (\<lambda>c. callArgs F c ! j) cs) Ps)) [0..<arg_size T]"
    and res: "mergeCallSites nb ni arg_size F T =
       Some (cleanFunc cs u Ga
               @ (M, mergedBlock cs u w sw ub T phis (map (\<lambda>p. VInstr (iid p)) phis) Ret)
               # cleanFunc cs u Gb @ extra, Some u)"
    and u: "u \<notin> set (iids F1) \<union> iid ` set phis"
    and ex: "(extra = [] \<and> ub \<in> set (bids F1) \<and> ub \<noteq> M)
      \<or> (\<exists>x. extra = [(ub, [Instr x Unreachable])] \<and> ub \<notin> set (bids F1)
            \<and> x \<notin> {u, w} \<union> set (iids (cleanFunc cs u (Ga @ (M, phis) # Gb))))"
    by - ((elim conjE, assumption)+)
  note I = inv [unfolded splitInv_def prod.case]
  from I have calls: "\<forall>i. isCallInst (kind i) \<longrightarrow> (i \<in> set (instrs F1) \<longleftrightarrow> i \<in> set (instrs (F @ [(M, [])])))"
    and iF: "set (iids (F @ [(M, [])])) \<subseteq> set (iids F1)"
    by - ((elim conjE, assumption)+)
  have clean: "callsOf T (cleanFunc cs u G) = []" if G: "set (instrs G) \<subseteq> set (instrs F1)" for G
  proof -
    have "getCalledFunction (kind i') \<noteq> Some T" if i': "i' \<in> set (instrs (cleanFunc cs u G))" for i'
    proof
      assume c: "getCalledFunction (kind i') = Some T"
      from i' obtain i where i: "i \<in> set (instrs G)" "iid i \<notin> set cs"
        "i' = mapInstr (mapOperands (substSites cs u)) i" unfolding cleanFunc_mem by blast
      from c i(3) have ci: "getCalledFunction (kind i) = Some T" by simp
      then have "isCallInst (kind i)" by (auto simp: getCalledFunction_Some)
      with calls i(1) G have "i \<in> set (instrs F)" by auto
      from callSite_collected [OF this ci] i(2) cs show False by simp
    qed
    then show ?thesis unfolding callsOf_def by (simp add: filter_empty_conv)
  qed
  have a: "callsOf T (cleanFunc cs u Ga) = []" by (rule clean) (auto simp: F1)
  have b: "callsOf T (cleanFunc cs u Gb) = []" by (rule clean) (auto simp: F1)
  have c: "callsOf T extra = []" using ex by auto
  have p: "filter (\<lambda>i. getCalledFunction (kind i) = Some T)
             (map (mapInstr (mapOperands (substSites cs u))) phis) = []"
  proof -
    have "getCalledFunction (kind p) \<noteq> Some T" if "p \<in> set phis" for p
      using phis_are_PHI [OF kinds that] by (cases "kind p") auto
    then show ?thesis by (simp add: filter_empty_conv)
  qed
  let ?args = "map (substSites cs u) (map (\<lambda>p. VInstr (iid p)) phis)"
  have "callsOf T (cleanFunc cs u Ga
               @ (M, mergedBlock cs u w sw ub T phis (map (\<lambda>p. VInstr (iid p)) phis) Ret)
               # cleanFunc cs u Gb @ extra) = [Instr u (Call (Direct T) ?args)]"
    using a b c p by (simp add: mergedBlock_def)
  moreover have "u \<notin> set (iids F)" using u iF by auto
  moreover have "length ?args = arg_size T"
    using arg_cong [OF kinds, of length] by simp
  ultimately show ?thesis using res by blast
qed

lemma mergeCallSites_unified:
  assumes "wellFormed F" "freshAlloc nb" "freshAlloc ni"
    "2 \<le> length (collectCallSites F T)" "sitesHaveArgs arg_size F T"
  shows "\<exists>F' u args. mergeCallSites nb ni arg_size F T = Some (F', Some u) \<and>
           callsOf T F' = [Instr u (Call (Direct T) args)] \<and> u \<notin> set (iids F)
           \<and> length args = arg_size T"
proof -
  from mergeCallSites_closed [OF assms] obtain cs M F1 Orig Ret Ps Rs Ga Gb phis u w sw ub extra
    where "mergeOutcome nb ni arg_size F T cs M F1 Orig Ret Ps Rs Ga Gb phis u w sw ub extra"
    by blast
  from mergeOutcome_callsOf [OF this] show ?thesis by blast
qed

section \<open>The unreachable-block locator\<close>

text \<open>
  Claim C5.  On a function none of whose blocks is a lone PHI node,
  \<open>getUnreachableBlock\<close> returns the first block, in function order, whose whole content
  is one \<^verbatim>\<open>unreachable\<close> instruction, and leaves the function as it is; when there is
  no such block it appends a new block to the function, whose whole content is one new
  \<^verbatim>\<open>unreachable\<close> instruction, and returns that block.
\<close>

theorem getUnreachableBlock_first_or_new:
  assumes "noLonePHI F" and "freshAlloc nb"
  shows "getUnreachableBlock nb ni F =
           (case find isUnreachableOnly F of
              Some (b, is) \<Rightarrow> Some (b, F)
            | None \<Rightarrow> Some (nb (bids F), F @ [(nb (bids F), [Instr (ni (iids F)) Unreachable])]))"
  using assms by (rule getUnreachableBlock_eq)

theorem getUnreachableBlock_first_or_new_witness:
  "noLonePHI exUnreachable \<and> freshAlloc bumpAlloc \<and>
   getUnreachableBlock bumpAlloc bumpAlloc exUnreachable = Some (20, exUnreachable)"
  using getUnreachableBlock_first_or_new [of exUnreachable bumpAlloc bumpAlloc] freshAlloc_bumpAlloc
  by (simp add: exUnreachable_def noLonePHI_def)

section \<open>Fewer than two call sites\<close>

text \<open>
  Claim C4, as the code has it.  When fewer than two call sites of \<open>Target\<close> are
  collected, \<open>mergeCallSites\<close> leaves the function as it is; it returns the null pointer
  when there is no call site, and the one call site when there is exactly one.
\<close>

theorem mergeCallSites_few_sites:
  "length (collectCallSites F Target) < 2 \<Longrightarrow>
   mergeCallSites nb ni arg_size F Target =
     Some (F, case collectCallSites F Target of [] \<Rightarrow> None | C # _ \<Rightarrow> Some C)"
  by (cases "collectCallSites F Target") (auto simp: mergeCallSites_def Let_def)

theorem mergeCallSites_few_sites_witness:
  "length (collectCallSites exOneCall 7) < 2 \<and>
   mergeCallSites bumpAlloc bumpAlloc (\<lambda>_. 1) exOneCall 7 = Some (exOneCall, Some 1)"
  using mergeCallSites_few_sites [of exOneCall 7 bumpAlloc bumpAlloc "\<lambda>_. 1"]
  by (simp add: exOneCall_def collectCallSites_def instrs_def isCallSiteOf_def)

text \<open>With exactly one call site the returned pointer is that call site, not null.\<close>

theorem mergeCallSites_single_site_not_null:
  "length (collectCallSites exOneCall 7) < 2 \<and>
   mergeCallSites bumpAlloc bumpAlloc (\<lambda>_. 1) exOneCall 7 \<noteq> Some (exOneCall, None)"
  by (simp add: exOneCall_def collectCallSites_def instrs_def isCallSiteOf_def mergeCallSites_def)

section \<open>The grouping of runOnFunction\<close>

lemma map_of_map_set: "map_of (map_set k v m) = (map_of m)(k \<mapsto> v)"
  by (induction m) (auto simp: fun_eq_iff)



section \<open>One call instruction after the merge\<close>

text \<open>
  Claim C1.  For every well-formed function \<open>F\<close> and callee \<open>T\<close> with at least two call
  sites in \<open>F\<close>, each passing at least as many arguments as \<open>T\<close> has parameters,
  \<open>mergeCallSites\<close> returns, and in the function it leaves there is exactly one
  instruction whose called function is \<open>T\<close>: a call instruction, the one it returns.
\<close>

theorem mergeCallSites_exactly_one_call:
  assumes "wellFormed F" "freshAlloc nb" "freshAlloc ni"
    "2 \<le> length (collectCallSites F T)" "sitesHaveArgs arg_size F T"
  shows "\<exists>F' u args. mergeCallSites nb ni arg_size F T = Some (F', Some u) \<and>
           callsOf T F' = [Instr u (Call (Direct T) args)]"
  using mergeCallSites_unified [OF assms] by blast

theorem mergeCallSites_exactly_one_call_witness:
  "wellFormed exThree \<and> freshAlloc bumpAlloc \<and> 2 \<le> length (collectCallSites exThree 7) \<and>
   sitesHaveArgs exArgSize exThree 7 \<and>
   (\<exists>F' u args. mergeCallSites bumpAlloc bumpAlloc exArgSize exThree 7 = Some (F', Some u) \<and>
      callsOf 7 F' = [Instr u (Call (Direct 7) args)])"
proof -
  have h1: "wellFormed exThree" by code_simp
  have h2: "2 \<le> length (collectCallSites exThree 7)" by code_simp
  have h3: "sitesHaveArgs exArgSize exThree 7" by code_simp
  from mergeCallSites_exactly_one_call [OF h1 freshAlloc_bumpAlloc freshAlloc_bumpAlloc h2 h3]
    h1 h2 h3 freshAlloc_bumpAlloc
  show ?thesis by blast
qed

section \<open>The discriminator and the switch\<close>

lemma whereIncoming_blocks: "map snd (whereIncoming k Ret) = map fst Ret"
  by (induction k Ret rule: whereIncoming.induct) auto

lemma whereIncoming_consts:
  "map fst (whereIncoming k Ret) = map (\<lambda>n. VConstInt (of_nat n)) [k..<k + length Ret]"
proof (induction k Ret rule: whereIncoming.induct)
  case (1 k)
  then show ?case by simp
next
  case (2 k P R kvs)
  have e: "[k..<k + length ((P, R) # kvs)] = k # [Suc k..<Suc k + length kvs]"
    using upt_conv_Cons [of k "Suc (k + length kvs)"] by (simp del: upt_Suc)
  show ?case unfolding e using 2 by (simp del: upt_Suc)
qed

lemma switchCases_consts: "map fst (switchCases k Ret) = map of_nat [k..<k + length Ret]"
proof (induction k Ret rule: switchCases.induct)
  case (1 k)
  then show ?case by simp
next
  case (2 k P R kvs)
  have e: "[k..<k + length ((P, R) # kvs)] = k # [Suc k..<Suc k + length kvs]"
    using upt_conv_Cons [of k "Suc (k + length kvs)"] by (simp del: upt_Suc)
  show ?case unfolding e using 2 by (simp del: upt_Suc)
qed

lemma switchCases_targets: "map snd (switchCases k Ret) = map snd Ret"
  by (induction k Ret rule: switchCases.induct) auto

lemma of_nat_32_inj:
  assumes "m < 2 ^ 32" "n < 2 ^ 32" "(of_nat m :: 32 word) = of_nat n"
  shows "m = n"
proof -
  have "unat (of_nat m :: 32 word) = unat (of_nat n :: 32 word)" using assms(3) by simp
  then show ?thesis using assms(1,2) by (simp add: unat_of_nat)
qed

lemma distinct_consts:
  assumes "k + n \<le> 2 ^ 32"
  shows "distinct (map (of_nat :: nat \<Rightarrow> 32 word) [k..<k + n])"
proof -
  have "inj_on (of_nat :: nat \<Rightarrow> 32 word) (set [k..<k + n])"
  proof (rule inj_onI)
    fix x y assume "x \<in> set [k..<k + n]" "y \<in> set [k..<k + n]"
      and e: "(of_nat x :: 32 word) = of_nat y"
    then have "x < 2 ^ 32" "y < 2 ^ 32" using assms by auto
    then show "x = y" using e by (rule of_nat_32_inj)
  qed
  then show ?thesis by (simp add: distinct_map)
qed

lemma phiValue_whereIncoming:
  "distinct (map fst Ret) \<Longrightarrow> j < length Ret \<Longrightarrow>
   phiValue (whereIncoming k Ret) (fst (Ret ! j)) = Some (VConstInt (of_nat (k + j)))"
proof (induction k Ret arbitrary: j rule: whereIncoming.induct)
  case (1 k)
  then show ?case by simp
next
  case (2 k P R kvs)
  show ?case
  proof (cases j)
    case 0
    then show ?thesis by (simp add: phiValue_def)
  next
    case (Suc j')
    with "2.prems" have j': "j' < length kvs" and d: "distinct (map fst kvs)" by simp_all
    from j' have "kvs ! j' \<in> set kvs" by (rule nth_mem)
    then have "fst (kvs ! j') \<in> fst ` set kvs" by (rule imageI)
    with "2.prems"(1) have "fst (kvs ! j') \<noteq> P" by auto
    with "2.IH" [OF d j'] Suc show ?thesis by (simp add: phiValue_def)
  qed
qed

lemma map_of_switchCases:
  "k + length Ret \<le> 2 ^ 32 \<Longrightarrow> j < length Ret \<Longrightarrow>
   map_of (switchCases k Ret) (of_nat (k + j)) = Some (snd (Ret ! j))"
proof (induction k Ret arbitrary: j rule: switchCases.induct)
  case (1 k)
  then show ?case by simp
next
  case (2 k P R kvs)
  show ?case
  proof (cases j)
    case 0
    then show ?thesis by simp
  next
    case (Suc j')
    with "2.prems" have j': "j' < length kvs" and b: "Suc k + length kvs \<le> 2 ^ 32" by simp_all
    have "(of_nat (k + j) :: 32 word) \<noteq> of_nat k"
    proof
      assume e: "(of_nat (k + j) :: 32 word) = of_nat k"
      have "k + j < 2 ^ 32" "k < 2 ^ 32" using "2.prems" by simp_all
      from of_nat_32_inj [OF this e] Suc show False by simp
    qed
    with "2.IH" [OF b j'] Suc show ?thesis by simp
  qed
qed

lemma length_eq_of_set_eq:
  "distinct xs \<Longrightarrow> distinct ys \<Longrightarrow> set xs = set ys \<Longrightarrow> length xs = length ys"
  by (metis distinct_card)

lemma distinct_of_sorted_keys: "sorted_wrt (<) (map fst (m :: (nat \<times> 'v) list)) \<Longrightarrow> distinct (map fst m)"
  by (simp add: strict_sorted_iff)

section \<open>What the merge leaves behind\<close>

lemma mergeOutcome_result:
  assumes "mergeOutcome nb ni arg_size F T cs M F1 Orig Ret Ps Rs Ga Gb phis u w sw ub extra"
  shows "mergeCallSites nb ni arg_size F T =
           Some (cleanFunc cs u Ga
               @ (M, mergedBlock cs u w sw ub T phis (map (\<lambda>p. VInstr (iid p)) phis) Ret)
               # cleanFunc cs u Gb @ extra, Some u)"
    and "map_of (cleanFunc cs u Ga
               @ (M, mergedBlock cs u w sw ub T phis (map (\<lambda>p. VInstr (iid p)) phis) Ret)
               # cleanFunc cs u Gb @ extra) M
           = Some (mergedBlock cs u w sw ub T phis (map (\<lambda>p. VInstr (iid p)) phis) Ret)"
    and "cs = collectCallSites F T" and "M = nb (bids F)"
    and "splitLoop nb ni M cs (F @ [(M, [])], Map.empty, []) = Some (F1, Orig, Ret)"
proof -
  note O = assms [unfolded mergeOutcome_def]
  from O have inv: "splitInv M (F @ [(M, [])]) cs [] Ps Rs (F1, Orig, Ret)"
    and F1: "F1 = Ga @ (M, []) # Gb"
    by - ((elim conjE, assumption)+)
  from inv [unfolded splitInv_def prod.case] have db: "distinct (bids F1)"
    by - ((elim conjE, assumption)+)
  have "M \<notin> set (bids (cleanFunc cs u Ga))" using db unfolding F1 by simp
  then show "map_of (cleanFunc cs u Ga
               @ (M, mergedBlock cs u w sw ub T phis (map (\<lambda>p. VInstr (iid p)) phis) Ret)
               # cleanFunc cs u Gb @ extra) M
           = Some (mergedBlock cs u w sw ub T phis (map (\<lambda>p. VInstr (iid p)) phis) Ret)"
    by (rule map_of_mid)
  from O show "mergeCallSites nb ni arg_size F T =
           Some (cleanFunc cs u Ga
               @ (M, mergedBlock cs u w sw ub T phis (map (\<lambda>p. VInstr (iid p)) phis) Ret)
               # cleanFunc cs u Gb @ extra, Some u)"
    and "cs = collectCallSites F T" and "M = nb (bids F)"
    and "splitLoop nb ni M cs (F @ [(M, [])], Map.empty, []) = Some (F1, Orig, Ret)"
    by - ((elim conjE, assumption)+)
qed

lemma mergeOutcome_pairs:
  assumes "mergeOutcome nb ni arg_size F T cs M F1 Orig Ret Ps Rs Ga Gb phis u w sw ub extra"
  shows "length Ps = length cs" and "length Rs = length cs" and "map Orig cs = map Some Ps"
    and "distinct Ps" and "distinct Rs" and "length Ret = length cs"
    and "map fst Ret = sort Ps" and "set (map snd Ret) = set Rs"
    and "\<forall>j < length cs. getParent F1 (cs ! j) = Some (Rs ! j)"
    and "\<forall>j < length cs. \<exists>k < length Ret. Ret ! k = (Ps ! j, Rs ! j)"
    and "distinct (map fst Ret)"
proof -
  note O = assms [unfolded mergeOutcome_def]
  from O have inv: "splitInv M (F @ [(M, [])]) cs [] Ps Rs (F1, Orig, Ret)"
    by - ((elim conjE, assumption)+)
  note I = inv [unfolded splitInv_def prod.case append_Nil2]
  from I show lP: "length Ps = length cs" and lR: "length Rs = length cs"
    and "map Orig cs = map Some Ps"
    and dP: "distinct Ps" and "distinct Rs"
    and "\<forall>j < length cs. getParent F1 (cs ! j) = Some (Rs ! j)"
    by - ((elim conjE, assumption)+)
  from I have ret: "set Ret = set (zip Ps Rs)" and srt: "sorted_wrt (<) (map fst Ret)"
    by - ((elim conjE, assumption)+)
  from srt show dk: "distinct (map fst Ret)" by (rule distinct_of_sorted_keys)
  then have dRet: "distinct Ret" by (simp add: distinct_map)
  have dz: "distinct (zip Ps Rs)" using dP by (rule distinct_zipI1)
  from length_eq_of_set_eq [OF dRet dz ret] lP lR show lRet: "length Ret = length cs" by simp
  have fz: "map fst (zip Ps Rs) = Ps" and sz: "map snd (zip Ps Rs) = Rs" using lP lR by simp_all
  have "set (map fst Ret) = set (map fst (zip Ps Rs))" using ret by simp
  then have sk: "set (map fst Ret) = set Ps" unfolding fz .
  have "set (map snd Ret) = set (map snd (zip Ps Rs))" using ret by simp
  then show "set (map snd Ret) = set Rs" unfolding sz .
  have "sorted (map fst Ret)" using srt by (simp add: strict_sorted_iff)
  moreover have "sorted (sort Ps)" by simp
  moreover have "distinct (sort Ps)" using dP by simp
  moreover have "set (map fst Ret) = set (sort Ps)" using sk by simp
  ultimately show "map fst Ret = sort Ps" using dk by (intro sorted_distinct_set_unique)
  show "\<forall>j < length cs. \<exists>k < length Ret. Ret ! k = (Ps ! j, Rs ! j)"
  proof (intro allI impI)
    fix j assume j: "j < length cs"
    then have "(Ps ! j, Rs ! j) \<in> set (zip Ps Rs)"
      using lP lR by (auto simp: set_zip)
    then have "(Ps ! j, Rs ! j) \<in> set Ret" unfolding ret .
    then show "\<exists>k < length Ret. Ret ! k = (Ps ! j, Rs ! j)" by (simp add: in_set_conv_nth)
  qed
qed

lemma mergeOutcome_dispatch:
  assumes O: "mergeOutcome nb ni arg_size F T cs M F1 Orig Ret Ps Rs Ga Gb phis u w sw ub extra"
    and bound: "length cs < 2 ^ 31" and j: "j < length cs"
  shows "\<exists>n. phiValue (whereIncoming 0 Ret) (Ps ! j) = Some (VConstInt n)
           \<and> switchEdge (VConstInt n) (switchCases 0 Ret) = Some (Rs ! j)"
proof -
  from mergeOutcome_pairs(10) [OF O] j obtain k where k: "k < length Ret"
    and e: "Ret ! k = (Ps ! j, Rs ! j)" by blast
  have "(2::nat) ^ 31 \<le> 2 ^ 32" by simp
  with bound mergeOutcome_pairs(6) [OF O] have b: "0 + length Ret \<le> 2 ^ 32" by simp
  from phiValue_whereIncoming [OF mergeOutcome_pairs(11) [OF O] k, of 0] e
  have a: "phiValue (whereIncoming 0 Ret) (Ps ! j) = Some (VConstInt (of_nat k))" by simp
  from map_of_switchCases [OF b k] e
  have "switchEdge (VConstInt (of_nat k)) (switchCases 0 Ret) = Some (Rs ! j)"
    by (simp add: switchEdge_def)
  with a show ?thesis by blast
qed

section \<open>Return-path redispatch\<close>

lemma whereIncoming_distinct_consts:
  assumes "length Ret \<le> 2 ^ 32"
  shows "distinct (map fst (whereIncoming 0 Ret))"
proof -
  have "map fst (whereIncoming 0 Ret) = map VConstInt (map of_nat [0..<0 + length Ret])"
    unfolding whereIncoming_consts by simp
  moreover have "distinct (map (of_nat :: nat \<Rightarrow> 32 word) [0..<0 + length Ret])"
    using assms by (intro distinct_consts) simp
  ultimately show ?thesis by (simp add: distinct_map inj_on_def)
qed

lemma switchCases_same_consts:
  "map (\<lambda>(n, R). VConstInt n) (switchCases 0 Ret) = map fst (whereIncoming 0 Ret)"
proof -
  have "map (\<lambda>(n, R). VConstInt n) (switchCases 0 Ret) = map VConstInt (map fst (switchCases 0 Ret))"
    by (simp add: case_prod_unfold)
  then show ?thesis unfolding switchCases_consts whereIncoming_consts by simp
qed

text \<open>
  Claim C3.  After \<open>mergeCallSites\<close> on a well-formed function with at least two (and
  fewer than \<open>2^31\<close>) call sites of \<open>T\<close>: the call block ends in the discriminator PHI
  node, the unified call and the switch on the discriminator.  The incoming blocks of the
  discriminator are the origin blocks, each once, and their constants are pairwise distinct;
  the switch has one case per such constant; and for the \<open>j\<close>-th call site, whose origin
  block is \<open>Ps ! j\<close> and which the splitting moved to its resume block \<open>Rs ! j\<close>, the
  discriminator arriving from \<open>Ps ! j\<close> selects the case whose target is \<open>Rs ! j\<close>.
\<close>

theorem mergeCallSites_redispatch:
  assumes "wellFormed F" "freshAlloc nb" "freshAlloc ni"
    "2 \<le> length (collectCallSites F T)" "sitesHaveArgs arg_size F T"
    and "length (collectCallSites F T) < 2 ^ 31"
  shows "\<exists>F' u M F1 Orig Ret Ps Rs pre w uargs sw ub.
           mergeCallSites nb ni arg_size F T = Some (F', Some u)
         \<and> splitLoop nb ni M (collectCallSites F T) (F @ [(M, [])], Map.empty, []) = Some (F1, Orig, Ret)
         \<and> map Orig (collectCallSites F T) = map Some Ps
         \<and> length Rs = length Ps \<and> distinct Ps \<and> distinct Rs
         \<and> map_of F' M =
               Some (pre @ [Instr w (PHI (whereIncoming 0 Ret)),
                            Instr u (Call (Direct T) uargs),
                            Instr sw (Switch (VInstr w) ub (switchCases 0 Ret))])
         \<and> distinct (map fst (whereIncoming 0 Ret))
         \<and> distinct (map snd (whereIncoming 0 Ret))
         \<and> set (map snd (whereIncoming 0 Ret)) = set Ps
         \<and> map (\<lambda>(n, R). VConstInt n) (switchCases 0 Ret) = map fst (whereIncoming 0 Ret)
         \<and> (\<forall>j < length Ps.
                getParent F1 (collectCallSites F T ! j) = Some (Rs ! j)
              \<and> (\<exists>n. phiValue (whereIncoming 0 Ret) (Ps ! j) = Some (VConstInt n)
                     \<and> switchEdge (VConstInt n) (switchCases 0 Ret) = Some (Rs ! j)))"
proof -
  from mergeCallSites_closed [OF assms(1-5)] obtain cs M F1 Orig Ret Ps Rs Ga Gb phis u w sw ub extra
    where O: "mergeOutcome nb ni arg_size F T cs M F1 Orig Ret Ps Rs Ga Gb phis u w sw ub extra"
    by blast
  note R = mergeOutcome_result [OF O] and P = mergeOutcome_pairs [OF O]
  have cs: "cs = collectCallSites F T" by (rule R(3))
  have bound: "length cs < 2 ^ 31" using assms(6) cs by simp
  have "(2::nat) ^ 31 \<le> 2 ^ 32" by simp
  with bound P(6) have lRet: "length Ret \<le> 2 ^ 32" by simp
  let ?F' = "cleanFunc cs u Ga
               @ (M, mergedBlock cs u w sw ub T phis (map (\<lambda>p. VInstr (iid p)) phis) Ret)
               # cleanFunc cs u Gb @ extra"
  let ?pre = "map (mapInstr (mapOperands (substSites cs u))) phis"
  let ?uargs = "map (substSites cs u) (map (\<lambda>p. VInstr (iid p)) phis)"
  have 1: "mergeCallSites nb ni arg_size F T = Some (?F', Some u)" by (rule R(1))
  have 2: "splitLoop nb ni M (collectCallSites F T) (F @ [(M, [])], Map.empty, []) = Some (F1, Orig, Ret)"
    using R(5) unfolding cs .
  have 3: "map Orig (collectCallSites F T) = map Some Ps" using P(3) unfolding cs .
  have 4: "length Rs = length Ps" using P(1,2) by simp
  have 5: "map_of ?F' M =
               Some (?pre @ [Instr w (PHI (whereIncoming 0 Ret)),
                            Instr u (Call (Direct T) ?uargs),
                            Instr sw (Switch (VInstr w) ub (switchCases 0 Ret))])"
    using R(2) unfolding mergedBlock_def .
  have 6: "distinct (map fst (whereIncoming 0 Ret))" using lRet by (rule whereIncoming_distinct_consts)
  have 7: "distinct (map snd (whereIncoming 0 Ret))" unfolding whereIncoming_blocks by (rule P(11))
  have 8: "set (map snd (whereIncoming 0 Ret)) = set Ps"
    unfolding whereIncoming_blocks P(7) by simp
  have 9: "map (\<lambda>(n, R). VConstInt n) (switchCases 0 Ret) = map fst (whereIncoming 0 Ret)"
    by (rule switchCases_same_consts)
  have 10: "\<forall>j < length Ps.
                getParent F1 (collectCallSites F T ! j) = Some (Rs ! j)
              \<and> (\<exists>n. phiValue (whereIncoming 0 Ret) (Ps ! j) = Some (VConstInt n)
                     \<and> switchEdge (VConstInt n) (switchCases 0 Ret) = Some (Rs ! j))"
  proof (intro allI impI)
    fix j assume "j < length Ps"
    then have j: "j < length cs" using P(1) by simp
    from P(9) j have "getParent F1 (cs ! j) = Some (Rs ! j)" by simp
    with mergeOutcome_dispatch [OF O bound j] cs
    show "getParent F1 (collectCallSites F T ! j) = Some (Rs ! j)
              \<and> (\<exists>n. phiValue (whereIncoming 0 Ret) (Ps ! j) = Some (VConstInt n)
                     \<and> switchEdge (VConstInt n) (switchCases 0 Ret) = Some (Rs ! j))" by simp
  qed
  from 1 2 3 4 P(4) P(5) 5 6 7 8 9 10 show ?thesis by blast
qed

theorem mergeCallSites_redispatch_witness:
  "wellFormed exThree \<and> freshAlloc bumpAlloc \<and> 2 \<le> length (collectCallSites exThree 7) \<and>
   sitesHaveArgs exArgSize exThree 7 \<and> length (collectCallSites exThree 7) < 2 ^ 31 \<and>
   (\<exists>F' u M F1 Orig Ret Ps Rs pre w uargs sw ub.
           mergeCallSites bumpAlloc bumpAlloc exArgSize exThree 7 = Some (F', Some u)
         \<and> splitLoop bumpAlloc bumpAlloc M (collectCallSites exThree 7) (exThree @ [(M, [])], Map.empty, []) = Some (F1, Orig, Ret)
         \<and> map Orig (collectCallSites exThree 7) = map Some Ps
         \<and> length Rs = length Ps \<and> distinct Ps \<and> distinct Rs
         \<and> map_of F' M =
               Some (pre @ [Instr w (PHI (whereIncoming 0 Ret)),
                            Instr u (Call (Direct 7) uargs),
                            Instr sw (Switch (VInstr w) ub (switchCases 0 Ret))])
         \<and> distinct (map fst (whereIncoming 0 Ret))
         \<and> distinct (map snd (whereIncoming 0 Ret))
         \<and> set (map snd (whereIncoming 0 Ret)) = set Ps
         \<and> map (\<lambda>(n, R). VConstInt n) (switchCases 0 Ret) = map fst (whereIncoming 0 Ret)
         \<and> (\<forall>j < length Ps.
                getParent F1 (collectCallSites exThree 7 ! j) = Some (Rs ! j)
              \<and> (\<exists>n. phiValue (whereIncoming 0 Ret) (Ps ! j) = Some (VConstInt n)
                     \<and> switchEdge (VConstInt n) (switchCases 0 Ret) = Some (Rs ! j))))"
proof -
  have h1: "wellFormed exThree" by code_simp
  have h2: "2 \<le> length (collectCallSites exThree 7)" by code_simp
  have h3: "sitesHaveArgs exArgSize exThree 7" by code_simp
  have "length (collectCallSites exThree 7) = 3" by code_simp
  then have h4: "length (collectCallSites exThree 7) < 2 ^ 31" by simp
  from mergeCallSites_redispatch [OF h1 freshAlloc_bumpAlloc freshAlloc_bumpAlloc h2 h3 h4]
    h1 h2 h3 h4 freshAlloc_bumpAlloc
  show ?thesis by (intro conjI)
qed

section \<open>The order of the discriminator constants\<close>

text \<open>
  Claim C8, as the code has it.  The constants of the discriminator are assigned by
  iterating the address-keyed map \<^verbatim>\<open>CallSiteToRet\<close>: the incoming list of the discriminator
  pairs the constants \<open>0, 1, \<dots>, K - 1\<close>, in this order, with the \<open>K\<close> origin blocks in
  increasing order of their addresses.
\<close>

theorem mergeCallSites_constants_by_address:
  assumes "wellFormed F" "freshAlloc nb" "freshAlloc ni"
    "2 \<le> length (collectCallSites F T)" "sitesHaveArgs arg_size F T"
  shows "\<exists>F' u M F1 Orig Ret Ps pre w post.
           mergeCallSites nb ni arg_size F T = Some (F', Some u)
         \<and> splitLoop nb ni M (collectCallSites F T) (F @ [(M, [])], Map.empty, []) = Some (F1, Orig, Ret)
         \<and> map Orig (collectCallSites F T) = map Some Ps
         \<and> map_of F' M =
               Some (pre @ Instr w (PHI (zip (map (\<lambda>n. VConstInt (of_nat n)) [0..<length Ps]) (sort Ps)))
                           # post)
         \<and> (\<exists>uargs. hd post = Instr u (Call (Direct T) uargs))"
proof -
  from mergeCallSites_closed [OF assms] obtain cs M F1 Orig Ret Ps Rs Ga Gb phis u w sw ub extra
    where O: "mergeOutcome nb ni arg_size F T cs M F1 Orig Ret Ps Rs Ga Gb phis u w sw ub extra"
    by blast
  note R = mergeOutcome_result [OF O] and P = mergeOutcome_pairs [OF O]
  have cs: "cs = collectCallSites F T" by (rule R(3))
  let ?F' = "cleanFunc cs u Ga
               @ (M, mergedBlock cs u w sw ub T phis (map (\<lambda>p. VInstr (iid p)) phis) Ret)
               # cleanFunc cs u Gb @ extra"
  let ?pre = "map (mapInstr (mapOperands (substSites cs u))) phis"
  let ?uargs = "map (substSites cs u) (map (\<lambda>p. VInstr (iid p)) phis)"
  let ?post = "[Instr u (Call (Direct T) ?uargs), Instr sw (Switch (VInstr w) ub (switchCases 0 Ret))]"
  have l: "length Ret = length Ps" using P(1,6) by simp
  have "whereIncoming 0 Ret = zip (map fst (whereIncoming 0 Ret)) (map snd (whereIncoming 0 Ret))"
    by (simp add: zip_map_fst_snd)
  also have "\<dots> = zip (map (\<lambda>n. VConstInt (of_nat n)) [0..<length Ps]) (sort Ps)"
    unfolding whereIncoming_consts whereIncoming_blocks P(7) l by simp
  finally have w: "whereIncoming 0 Ret = zip (map (\<lambda>n. VConstInt (of_nat n)) [0..<length Ps]) (sort Ps)" .
  have 1: "mergeCallSites nb ni arg_size F T = Some (?F', Some u)" by (rule R(1))
  have 2: "splitLoop nb ni M (collectCallSites F T) (F @ [(M, [])], Map.empty, []) = Some (F1, Orig, Ret)"
    using R(5) unfolding cs .
  have 3: "map Orig (collectCallSites F T) = map Some Ps" using P(3) unfolding cs .
  have 4: "map_of ?F' M =
               Some (?pre @ Instr w (PHI (zip (map (\<lambda>n. VConstInt (of_nat n)) [0..<length Ps]) (sort Ps)))
                           # ?post)"
    using R(2) unfolding mergedBlock_def w by simp
  have 5: "\<exists>uargs. hd ?post = Instr u (Call (Direct T) uargs)" by simp
  from 1 2 3 4 5 show ?thesis by blast
qed

theorem mergeCallSites_constants_by_address_witness:
  "wellFormed exThree \<and> freshAlloc bumpAlloc \<and> 2 \<le> length (collectCallSites exThree 7) \<and>
   sitesHaveArgs exArgSize exThree 7 \<and>
   (\<exists>F' u M F1 Orig Ret Ps pre w post.
           mergeCallSites bumpAlloc bumpAlloc exArgSize exThree 7 = Some (F', Some u)
         \<and> splitLoop bumpAlloc bumpAlloc M (collectCallSites exThree 7) (exThree @ [(M, [])], Map.empty, []) = Some (F1, Orig, Ret)
         \<and> map Orig (collectCallSites exThree 7) = map Some Ps
         \<and> map_of F' M =
               Some (pre @ Instr w (PHI (zip (map (\<lambda>n. VConstInt (of_nat n)) [0..<length Ps]) (sort Ps)))
                           # post)
         \<and> (\<exists>uargs. hd post = Instr u (Call (Direct 7) uargs)))"
proof -
  have h1: "wellFormed exThree" by code_simp
  have h2: "2 \<le> length (collectCallSites exThree 7)" by code_simp
  have h3: "sitesHaveArgs exArgSize exThree 7" by code_simp
  from mergeCallSites_constants_by_address [OF h1 freshAlloc_bumpAlloc freshAlloc_bumpAlloc h2 h3]
    h1 h2 h3 freshAlloc_bumpAlloc
  show ?thesis by (intro conjI)
qed

text \<open>In \<open>exTwo\<close> the call sites are collected in the order 1, 3; call 1 lies in block
  30 and call 3 in block 20.  The discriminator gives constant 0 to block 20, the origin
  block of the call site collected second, and constant 1 to block 30.\<close>

theorem mergeCallSites_constants_not_in_collection_order:
  "collectCallSites exTwo 7 = [1, 3] \<and> getParent exTwo 1 = Some 30 \<and> getParent exTwo 3 = Some 20 \<and>
   mergeCallSites bumpAlloc bumpAlloc exArgSize exTwo 7 =
     Some ([(30, [Instr 6 (Br 31)]),
            (32, [Instr 2 (Br 20)]),
            (20, [Instr 8 (Br 31)]),
            (33, [Instr 4 (OtherTerm [VInstr 10] [])]),
            (31, [Instr 9 (PHI [(VArgument 0, 30), (VArgument 1, 20)]),
                  Instr 11 (PHI [(VConstInt 0, 20), (VConstInt 1, 30)]),
                  Instr 10 (Call (Direct 7) [VInstr 9]),
                  Instr 13 (Switch (VInstr 11) 34 [(0, 33), (1, 32)])]),
            (34, [Instr 12 Unreachable])],
           Some 10)"
  by code_simp

section \<open>The argument PHI nodes of the call block\<close>

lemma phiValue_zip:
  "length vs = length Ps \<Longrightarrow> distinct Ps \<Longrightarrow> j < length Ps \<Longrightarrow>
   phiValue (zip vs Ps) (Ps ! j) = Some (vs ! j)"
proof -
  assume l: "length vs = length Ps" and d: "distinct Ps" and j: "j < length Ps"
  have "map (\<lambda>(v, b). (b, v)) (zip vs Ps) = zip Ps vs"
    using l by (induction vs Ps rule: list_induct2) auto
  then show ?thesis
    unfolding phiValue_def using map_of_zip_nth [OF l [symmetric] d, of j] j l by simp
qed

lemma sitesMatchSignature_sitesHaveArgs:
  "sitesMatchSignature arg_size F T \<Longrightarrow> sitesHaveArgs arg_size F T"
  by (simp add: sitesMatchSignature_def sitesHaveArgs_def list_all_iff)

lemma mergeOutcome_arg_phis:
  assumes O: "mergeOutcome nb ni arg_size F T cs M F1 Orig Ret Ps Rs Ga Gb phis u w sw ub extra"
  defines "phis' \<equiv> map (mapInstr (mapOperands (substSites cs u))) phis"
  shows "length phis' = arg_size T"
    and "\<forall>i < arg_size T.
           kind (phis' ! i) = PHI (zip (map (\<lambda>c. substSites cs u (callArgs F c ! i)) cs) Ps)"
    and "map (substSites cs u) (map (\<lambda>p. VInstr (iid p)) phis) = map (\<lambda>p. VInstr (iid p)) phis'"
proof -
  note O' = O [unfolded mergeOutcome_def]
  from O' have kinds: "map kind phis
        = map (\<lambda>j. PHI (zip (map (\<lambda>c. callArgs F c ! j) cs) Ps)) [0..<arg_size T]"
    and dis: "set (map iid phis) \<inter> set (iids F1) = {}"
    and inv: "splitInv M (F @ [(M, [])]) cs [] Ps Rs (F1, Orig, Ret)"
    by - ((elim conjE, assumption)+)
  from inv [unfolded splitInv_def prod.case append_Nil2]
  have ord: "filter (\<lambda>x. x \<in> set cs) (iids F1) = cs"
    by - ((elim conjE, assumption)+)
  have "set (filter (\<lambda>x. x \<in> set cs) (iids F1)) \<subseteq> set (iids F1)" by (rule filter_is_subset)
  then have csF1: "set cs \<subseteq> set (iids F1)" unfolding ord .
  from arg_cong [OF kinds, of length] show l: "length phis' = arg_size T"
    by (simp add: phis'_def)
  show "\<forall>i < arg_size T.
           kind (phis' ! i) = PHI (zip (map (\<lambda>c. substSites cs u (callArgs F c ! i)) cs) Ps)"
  proof (intro allI impI)
    fix i assume i: "i < arg_size T"
    then have il: "i < length phis" using l by (simp add: phis'_def)
    have "kind (phis ! i) = map kind phis ! i" using il by simp
    also have "\<dots> = PHI (zip (map (\<lambda>c. callArgs F c ! i) cs) Ps)" unfolding kinds using i by simp
    finally have k: "kind (phis ! i) = PHI (zip (map (\<lambda>c. callArgs F c ! i) cs) Ps)" .
    have "map (\<lambda>(v, b). (substSites cs u v, b)) (zip (map (\<lambda>c. callArgs F c ! i) cs) Ps)
            = zip (map (\<lambda>c. substSites cs u (callArgs F c ! i)) cs) Ps"
      by (simp add: zip_map1 case_prod_unfold comp_def)
    with k il show "kind (phis' ! i) = PHI (zip (map (\<lambda>c. substSites cs u (callArgs F c ! i)) cs) Ps)"
      by (simp add: phis'_def)
  qed
  have "substSites cs u (VInstr (iid p)) = VInstr (iid p)" if "p \<in> set phis" for p
  proof -
    from that dis csF1 have "iid p \<notin> set cs" by auto
    then show ?thesis by (simp add: substSites_def)
  qed
  then show "map (substSites cs u) (map (\<lambda>p. VInstr (iid p)) phis) = map (\<lambda>p. VInstr (iid p)) phis'"
    by (simp add: phis'_def)
qed

text \<open>
  What the code builds for the arguments.  After \<open>mergeCallSites\<close> on a well-formed
  function with at least two call sites of \<open>T\<close>, each passing as many arguments as \<open>T\<close>
  has parameters, the call block starts with one PHI node per parameter, and the unified
  call takes these PHI nodes as its arguments.  The incoming entry of node \<open>i\<close> for the
  origin block of a call site is the \<open>i\<close>-th argument of that call site after
  \<open>substSites\<close>: an argument that was the result of one of the merged call sites has
  become the result of the unified call itself.
\<close>

theorem mergeCallSites_argument_phis:
  assumes "wellFormed F" "freshAlloc nb" "freshAlloc ni"
    "2 \<le> length (collectCallSites F T)" "sitesMatchSignature arg_size F T"
  shows "\<exists>F' u M F1 Orig Ret Ps phis post.
           mergeCallSites nb ni arg_size F T = Some (F', Some u)
         \<and> splitLoop nb ni M (collectCallSites F T) (F @ [(M, [])], Map.empty, []) = Some (F1, Orig, Ret)
         \<and> map Orig (collectCallSites F T) = map Some Ps \<and> distinct Ps
         \<and> map_of F' M = Some (phis @ post) \<and> length phis = arg_size T
         \<and> (\<forall>i < arg_size T.
                kind (phis ! i) =
                  PHI (zip (map (\<lambda>c. substSites (collectCallSites F T) u (callArgs F c ! i))
                              (collectCallSites F T)) Ps))
         \<and> Instr u (Call (Direct T) (map (\<lambda>p. VInstr (iid p)) phis)) \<in> set post
         \<and> (\<forall>j < length (collectCallSites F T).
                map (\<lambda>p. phiValue (phiIncoming p) (Ps ! j)) phis =
                map (\<lambda>v. Some (substSites (collectCallSites F T) u v))
                    (callArgs F (collectCallSites F T ! j)))"
proof -
  note args = sitesMatchSignature_sitesHaveArgs [OF assms(5)]
  from mergeCallSites_closed [OF assms(1-4) args]
  obtain cs M F1 Orig Ret Ps Rs Ga Gb phis u w sw ub extra
    where O: "mergeOutcome nb ni arg_size F T cs M F1 Orig Ret Ps Rs Ga Gb phis u w sw ub extra"
    by blast
  note R = mergeOutcome_result [OF O] and P = mergeOutcome_pairs [OF O]
    and A = mergeOutcome_arg_phis [OF O]
  have cs: "cs = collectCallSites F T" by (rule R(3))
  let ?F' = "cleanFunc cs u Ga
               @ (M, mergedBlock cs u w sw ub T phis (map (\<lambda>p. VInstr (iid p)) phis) Ret)
               # cleanFunc cs u Gb @ extra"
  let ?phis = "map (mapInstr (mapOperands (substSites cs u))) phis"
  let ?post = "[Instr w (PHI (whereIncoming 0 Ret)),
                Instr u (Call (Direct T) (map (\<lambda>p. VInstr (iid p)) ?phis)),
                Instr sw (Switch (VInstr w) ub (switchCases 0 Ret))]"
  have 1: "mergeCallSites nb ni arg_size F T = Some (?F', Some u)" by (rule R(1))
  have 2: "splitLoop nb ni M (collectCallSites F T) (F @ [(M, [])], Map.empty, []) = Some (F1, Orig, Ret)"
    using R(5) unfolding cs .
  have 3: "map Orig (collectCallSites F T) = map Some Ps" using P(3) unfolding cs .
  have 4: "map_of ?F' M = Some (?phis @ ?post)"
    using R(2) unfolding mergedBlock_def A(3) .
  have 5: "\<forall>i < arg_size T.
                kind (?phis ! i) =
                  PHI (zip (map (\<lambda>c. substSites (collectCallSites F T) u (callArgs F c ! i))
                              (collectCallSites F T)) Ps)"
    using A(2) unfolding cs .
  have 6: "Instr u (Call (Direct T) (map (\<lambda>p. VInstr (iid p)) ?phis)) \<in> set ?post" by simp
  have 7: "\<forall>j < length (collectCallSites F T).
                map (\<lambda>p. phiValue (phiIncoming p) (Ps ! j)) ?phis =
                map (\<lambda>v. Some (substSites (collectCallSites F T) u v))
                    (callArgs F (collectCallSites F T ! j))"
  proof (intro allI impI)
    fix j assume j: "j < length (collectCallSites F T)"
    then have jc: "j < length cs" and jP: "j < length Ps" using cs P(1) by simp_all
    have "cs ! j \<in> set cs" using jc by (rule nth_mem)
    with assms(5) cs have la: "length (callArgs F (cs ! j)) = arg_size T"
      unfolding sitesMatchSignature_def list_all_iff by blast
    have "map (\<lambda>p. phiValue (phiIncoming p) (Ps ! j)) ?phis =
          map (\<lambda>v. Some (substSites cs u v)) (callArgs F (cs ! j))"
    proof (rule nth_equalityI)
      show "length (map (\<lambda>p. phiValue (phiIncoming p) (Ps ! j)) ?phis) =
            length (map (\<lambda>v. Some (substSites cs u v)) (callArgs F (cs ! j)))"
        using A(1) la by simp
    next
      fix i assume "i < length (map (\<lambda>p. phiValue (phiIncoming p) (Ps ! j)) ?phis)"
      then have il: "i < length ?phis" by simp
      then have i: "i < arg_size T" using A(1) by simp
      from A(2) i have k: "kind (?phis ! i)
          = PHI (zip (map (\<lambda>c. substSites cs u (callArgs F c ! i)) cs) Ps)" by blast
      have "phiValue (phiIncoming (?phis ! i)) (Ps ! j)
              = phiValue (zip (map (\<lambda>c. substSites cs u (callArgs F c ! i)) cs) Ps) (Ps ! j)"
        unfolding phiIncoming_def k by simp
      also have "\<dots> = Some (map (\<lambda>c. substSites cs u (callArgs F c ! i)) cs ! j)"
        using P(1) P(4) jP by (intro phiValue_zip) simp_all
      also have "\<dots> = Some (substSites cs u (callArgs F (cs ! j) ! i))" using jc by simp
      finally have "phiValue (phiIncoming (?phis ! i)) (Ps ! j)
                      = Some (substSites cs u (callArgs F (cs ! j) ! i))" .
      then show "map (\<lambda>p. phiValue (phiIncoming p) (Ps ! j)) ?phis ! i =
                 map (\<lambda>v. Some (substSites cs u v)) (callArgs F (cs ! j)) ! i"
        using il i la by simp
    qed
    then show "map (\<lambda>p. phiValue (phiIncoming p) (Ps ! j)) ?phis =
                map (\<lambda>v. Some (substSites (collectCallSites F T) u v))
                    (callArgs F (collectCallSites F T ! j))"
      unfolding cs .
  qed
  from 1 2 3 P(4) 4 A(1) 5 6 7 show ?thesis by blast
qed

theorem mergeCallSites_argument_phis_witness:
  "wellFormed exThree \<and> freshAlloc bumpAlloc \<and> 2 \<le> length (collectCallSites exThree 7) \<and>
   sitesMatchSignature exArgSize exThree 7 \<and>
   (\<exists>F' u M F1 Orig Ret Ps phis post.
           mergeCallSites bumpAlloc bumpAlloc exArgSize exThree 7 = Some (F', Some u)
         \<and> splitLoop bumpAlloc bumpAlloc M (collectCallSites exThree 7) (exThree @ [(M, [])], Map.empty, []) = Some (F1, Orig, Ret)
         \<and> map Orig (collectCallSites exThree 7) = map Some Ps \<and> distinct Ps
         \<and> map_of F' M = Some (phis @ post) \<and> length phis = exArgSize 7
         \<and> (\<forall>i < exArgSize 7.
                kind (phis ! i) =
                  PHI (zip (map (\<lambda>c. substSites (collectCallSites exThree 7) u (callArgs exThree c ! i))
                              (collectCallSites exThree 7)) Ps))
         \<and> Instr u (Call (Direct 7) (map (\<lambda>p. VInstr (iid p)) phis)) \<in> set post
         \<and> (\<forall>j < length (collectCallSites exThree 7).
                map (\<lambda>p. phiValue (phiIncoming p) (Ps ! j)) phis =
                map (\<lambda>v. Some (substSites (collectCallSites exThree 7) u v))
                    (callArgs exThree (collectCallSites exThree 7 ! j))))"
proof -
  have h1: "wellFormed exThree" by code_simp
  have h2: "2 \<le> length (collectCallSites exThree 7)" by code_simp
  have h3: "sitesMatchSignature exArgSize exThree 7" by code_simp
  from mergeCallSites_argument_phis [OF h1 freshAlloc_bumpAlloc freshAlloc_bumpAlloc h2 h3]
    h1 h2 h3 freshAlloc_bumpAlloc
  show ?thesis by (intro conjI)
qed

text \<open>
  Claim C2 fails on the code.  In \<open>exStale\<close> the call in block 30 passes the result of
  the call in block 10, and the call in block 20 runs in between.  After the merge the PHI
  node of the argument has, for block 30, the result of the unified call 14: on arrival
  from block 30 that is the result of the latest call, the one made for block 20, not the
  value the original call passed.  \<open>exStaleB\<close>, whose third call passes the result of the
  call in block 20 instead, is turned into the very same function.
\<close>

theorem mergeCallSites_stale_argument:
  "getParent exStale 5 = Some 30 \<and> getArgOperand exStale 5 0 = Some (VInstr 1) \<and>
   getParent exStaleB 5 = Some 30 \<and> getArgOperand exStaleB 5 0 = Some (VInstr 3) \<and>
   mergeCallSites bumpAlloc bumpAlloc exArgSize exStale 7 =
     Some ([(10, [Instr 8 (Br 31)]),
            (32, [Instr 2 (Br 20)]),
            (20, [Instr 10 (Br 31)]),
            (33, [Instr 4 (Br 30)]),
            (30, [Instr 12 (Br 31)]),
            (34, [Instr 6 (OtherTerm [VInstr 14] [])]),
            (31, [Instr 13 (PHI [(VArgument 0, 10), (VArgument 1, 20), (VInstr 14, 30)]),
                  Instr 15 (PHI [(VConstInt 0, 10), (VConstInt 1, 20), (VConstInt 2, 30)]),
                  Instr 14 (Call (Direct 7) [VInstr 13]),
                  Instr 17 (Switch (VInstr 15) 35 [(0, 32), (1, 33), (2, 34)])]),
            (35, [Instr 16 Unreachable])],
           Some 14) \<and>
   mergeCallSites bumpAlloc bumpAlloc exArgSize exStaleB 7 =
     mergeCallSites bumpAlloc bumpAlloc exArgSize exStale 7"
  by code_simp

section \<open>The predecessors of the call block\<close>

lemma predecessors_simps:
  "predecessors [] b = []"
  "predecessors (F @ G) b = predecessors F b @ predecessors G b"
  "predecessors ((p, is) # F) b =
     (if b \<in> set (blockSuccessors is) then p # predecessors F b else predecessors F b)"
  by (simp_all add: predecessors_def)

lemma blockSuccessors_last:
  "getTerminator is = Some t \<Longrightarrow> blockSuccessors is = successors (kind (last is))"
  by (auto simp: blockSuccessors_def getTerminator_def split: if_splits)

lemma blockSuccessors_cleanBlock:
  assumes "getTerminator is = Some t" "iid t \<notin> set cs"
  shows "blockSuccessors (cleanBlock cs u is) = blockSuccessors is"
  using getTerminator_cleanBlock [OF assms, of u] assms(1)
  by (cases t) (simp add: blockSuccessors_def)

lemma noEdgeTo_initial:
  assumes wf: "wellFormed F" and ti: "targetsInside F" and M: "M \<notin> set (bids F)"
  shows "noEdgeTo M [] (F @ [(M, [])])"
  unfolding noEdgeTo_def
proof (intro ballI, clarify)
  fix b "is"
  assume mem: "(b, is) \<in> set (F @ [(M, [])])" and ne: "is \<noteq> []"
    and edge: "M \<in> set (successors (kind (last is)))"
  from mem ne have bF: "(b, is) \<in> set F" by auto
  with wf have "getTerminator is \<noteq> None" by (auto simp: wellFormed_def list_all_iff)
  then obtain t where t: "getTerminator is = Some t" by blast
  from ti bF have "set (blockSuccessors is) \<subseteq> set (bids F)"
    by (auto simp: targetsInside_def list_all_iff)
  with edge M show False unfolding blockSuccessors_last [OF t] by blast
qed

lemma predecessors_cleanFunc:
  assumes "\<And>b is. (b, is) \<in> set G \<Longrightarrow>
             (M \<in> set (blockSuccessors (cleanBlock cs u is))) = (b \<in> set Ps)"
  shows "set (predecessors (cleanFunc cs u G) M) = set (bids G) \<inter> set Ps"
  using assms
proof (induction G)
  case Nil
  show ?case by (simp add: predecessors_simps)
next
  case (Cons a G)
  obtain b "is" where a: "a = (b, is)" by (cases a)
  have "set (predecessors (cleanFunc cs u G) M) = set (bids G) \<inter> set Ps"
    by (rule Cons.IH) (simp add: Cons.prems)
  moreover have "(M \<in> set (blockSuccessors (cleanBlock cs u is))) = (b \<in> set Ps)"
    by (rule Cons.prems) (simp add: a)
  ultimately show ?case by (auto simp: a predecessors_simps)
qed

lemma mergeOutcome_predecessors:
  assumes O: "mergeOutcome nb ni arg_size F T cs M F1 Orig Ret Ps Rs Ga Gb phis u w sw ub extra"
    and ne: "noEdgeTo M [] (F @ [(M, [])])"
  shows "set (predecessors (cleanFunc cs u Ga
               @ (M, mergedBlock cs u w sw ub T phis (map (\<lambda>p. VInstr (iid p)) phis) Ret)
               # cleanFunc cs u Gb @ extra) M) = set Ps"
proof -
  note O' = O [unfolded mergeOutcome_def]
  from O' have inv: "splitInv M (F @ [(M, [])]) cs [] Ps Rs (F1, Orig, Ret)"
    and F1: "F1 = Ga @ (M, []) # Gb"
    and ex: "(extra = [] \<and> ub \<in> set (bids F1) \<and> ub \<noteq> M) \<or>
             (\<exists>x. extra = [(ub, [Instr x Unreachable])] \<and> ub \<notin> set (bids F1) \<and>
                  x \<notin> {u, w} \<union> set (iids (cleanFunc cs u (Ga @ (M, phis) # Gb))))"
    by - ((elim conjE, assumption)+)
  note I = inv [unfolded splitInv_def prod.case append_Nil2]
  from I have db: "distinct (bids F1)"
    and tm: "\<forall>(b, is) \<in> set F1. b \<noteq> M \<longrightarrow> getTerminator is \<noteq> None"
    and mM: "map_of F1 M = Some []"
    and calls: "\<forall>i \<in> set (instrs F1). iid i \<in> set cs \<longrightarrow> isCallInst (kind i)"
    and PsF: "set Ps \<subseteq> set (bids F1)"
    and RF0: "set Rs \<inter> set (bids (F @ [(M, [])])) = {}"
    and org: "\<forall>P \<in> set Ps. \<exists>is B. map_of F1 P = Some (is @ [Instr B (Br M)]) \<and> iid ` set is \<inter> set [] = {}"
    and noE: "noEdgeTo M [] (F @ [(M, [])]) \<longrightarrow> noEdgeTo M Ps F1"
    by - ((elim conjE, assumption)+)
  from noE ne have noE': "noEdgeTo M Ps F1" by simp
  have MPs: "M \<notin> set Ps"
  proof
    assume "M \<in> set Ps"
    with org obtain "is" B where "map_of F1 M = Some (is @ [Instr B (Br M)])" by blast
    with mM show False by simp
  qed
  have blk: "(M \<in> set (blockSuccessors (cleanBlock cs u is))) = (b \<in> set Ps)"
    if mem: "(b, is) \<in> set Ga \<union> set Gb" for b "is"
  proof -
    from mem have bF1: "(b, is) \<in> set F1" unfolding F1 by auto
    from mem db have bM: "b \<noteq> M" unfolding F1 by (auto dest: mem_bids)
    from tm bF1 bM obtain t where t: "getTerminator is = Some t" by blast
    then have tl: "t = last is" and nn: "is \<noteq> []" and tt: "isTerminator (kind t)"
      by (auto simp: getTerminator_def split: if_splits)
    then have "t \<in> set is" by simp
    with bF1 have "t \<in> set (instrs F1)" by (rule mem_instrs)
    with calls tt isCallInst_not_Terminator have tcs: "iid t \<notin> set cs" by blast
    have eq: "blockSuccessors (cleanBlock cs u is) = successors (kind (last is))"
      unfolding blockSuccessors_cleanBlock [OF t tcs] by (rule blockSuccessors_last [OF t])
    have mo: "map_of F1 b = Some is" using db bF1 by (simp add: bids_def)
    show ?thesis
    proof (cases "b \<in> set Ps")
      case True
      with org obtain is' B where "map_of F1 b = Some (is' @ [Instr B (Br M)])" by blast
      with mo have "is = is' @ [Instr B (Br M)]" by simp
      then show ?thesis using True unfolding eq by simp
    next
      case False
      with noE' bF1 nn have "M \<notin> set (successors (kind (last is)))"
        unfolding noEdgeTo_def by blast
      then show ?thesis using False unfolding eq by simp
    qed
  qed
  have pa: "set (predecessors (cleanFunc cs u Ga) M) = set (bids Ga) \<inter> set Ps"
    by (rule predecessors_cleanFunc) (simp add: blk)
  have pb: "set (predecessors (cleanFunc cs u Gb) M) = set (bids Gb) \<inter> set Ps"
    by (rule predecessors_cleanFunc) (simp add: blk)
  have MF0: "M \<in> set (bids (F @ [(M, [])]))" by simp
  with RF0 have MRs: "M \<notin> set Rs" by blast
  have ubM: "ub \<noteq> M" using ex unfolding F1 by auto
  have "getTerminator (mergedBlock cs u w sw ub T phis (map (\<lambda>p. VInstr (iid p)) phis) Ret)
          = Some (Instr sw (Switch (VInstr w) ub (switchCases 0 Ret)))"
    by (simp add: mergedBlock_def getTerminator_def)
  then have "blockSuccessors (mergedBlock cs u w sw ub T phis (map (\<lambda>p. VInstr (iid p)) phis) Ret)
          = ub # map snd (switchCases 0 Ret)"
    by (simp add: blockSuccessors_def)
  then have pm: "M \<notin> set (blockSuccessors
                   (mergedBlock cs u w sw ub T phis (map (\<lambda>p. VInstr (iid p)) phis) Ret))"
    using ubM MRs mergeOutcome_pairs(8) [OF O] unfolding switchCases_targets by simp
  have pe: "predecessors extra M = []"
    using ex by (auto simp: predecessors_simps blockSuccessors_def getTerminator_def)
  have "set (bids F1) = insert M (set (bids Ga) \<union> set (bids Gb))" unfolding F1 by auto
  with PsF MPs have "(set (bids Ga) \<inter> set Ps) \<union> (set (bids Gb) \<inter> set Ps) = set Ps" by auto
  then show ?thesis using pa pb pm pe by (simp add: predecessors_simps)
qed

text \<open>
  Claim C9.  Let \<open>F\<close> be well formed with all branch targets among its own blocks, and
  with at least two (and fewer than \<open>2^31\<close>) call sites of \<open>T\<close>.  After \<open>mergeCallSites\<close>
  the predecessors of the call block are exactly the origin blocks of the call sites, and
  for every predecessor the discriminator PHI node yields a constant for which the switch
  has a case: control that enters the call block takes a case edge of the switch, never
  the default edge to the unreachable block.
\<close>

theorem mergeCallSites_default_not_taken:
  assumes "wellFormed F" "freshAlloc nb" "freshAlloc ni"
    "2 \<le> length (collectCallSites F T)" "sitesHaveArgs arg_size F T"
    and "length (collectCallSites F T) < 2 ^ 31" and "targetsInside F"
  shows "\<exists>F' u M F1 Orig Ret Ps pre w inc uc sw ub cases.
           mergeCallSites nb ni arg_size F T = Some (F', Some u)
         \<and> splitLoop nb ni M (collectCallSites F T) (F @ [(M, [])], Map.empty, []) = Some (F1, Orig, Ret)
         \<and> map Orig (collectCallSites F T) = map Some Ps
         \<and> map_of F' M =
               Some (pre @ [Instr w (PHI inc), uc, Instr sw (Switch (VInstr w) ub cases)])
         \<and> set (predecessors F' M) = set Ps
         \<and> entersByCase (predecessors F' M) inc cases"
proof -
  from mergeCallSites_closed [OF assms(1-5)] obtain cs M F1 Orig Ret Ps Rs Ga Gb phis u w sw ub extra
    where O: "mergeOutcome nb ni arg_size F T cs M F1 Orig Ret Ps Rs Ga Gb phis u w sw ub extra"
    by blast
  note R = mergeOutcome_result [OF O] and P = mergeOutcome_pairs [OF O]
  have cs: "cs = collectCallSites F T" by (rule R(3))
  have bound: "length cs < 2 ^ 31" using assms(6) cs by simp
  from O have MF: "M \<notin> set (bids F)" unfolding mergeOutcome_def by - ((elim conjE, assumption)+)
  note ne = noEdgeTo_initial [OF assms(1) assms(7) MF]
  let ?F' = "cleanFunc cs u Ga
               @ (M, mergedBlock cs u w sw ub T phis (map (\<lambda>p. VInstr (iid p)) phis) Ret)
               # cleanFunc cs u Gb @ extra"
  let ?pre = "map (mapInstr (mapOperands (substSites cs u))) phis"
  let ?uc = "Instr u (Call (Direct T) (map (substSites cs u) (map (\<lambda>p. VInstr (iid p)) phis)))"
  have 1: "mergeCallSites nb ni arg_size F T = Some (?F', Some u)" by (rule R(1))
  have 2: "splitLoop nb ni M (collectCallSites F T) (F @ [(M, [])], Map.empty, []) = Some (F1, Orig, Ret)"
    using R(5) unfolding cs .
  have 3: "map Orig (collectCallSites F T) = map Some Ps" using P(3) unfolding cs .
  have 4: "map_of ?F' M =
               Some (?pre @ [Instr w (PHI (whereIncoming 0 Ret)), ?uc,
                             Instr sw (Switch (VInstr w) ub (switchCases 0 Ret))])"
    using R(2) unfolding mergedBlock_def .
  have 5: "set (predecessors ?F' M) = set Ps" by (rule mergeOutcome_predecessors [OF O ne])
  have 6: "entersByCase (predecessors ?F' M) (whereIncoming 0 Ret) (switchCases 0 Ret)"
    unfolding entersByCase_def list_all_iff 5
  proof
    fix p assume "p \<in> set Ps"
    then obtain j where j: "j < length Ps" and p: "p = Ps ! j" by (auto simp: in_set_conv_nth)
    from j P(1) have "j < length cs" by simp
    from mergeOutcome_dispatch [OF O bound this] p
    show "case phiValue (whereIncoming 0 Ret) p of
            Some (VConstInt n) \<Rightarrow> switchEdge (VConstInt n) (switchCases 0 Ret) \<noteq> None
          | _ \<Rightarrow> False"
      by auto
  qed
  from 1 2 3 4 5 6 show ?thesis by blast
qed

theorem mergeCallSites_default_not_taken_witness:
  "wellFormed exThree \<and> freshAlloc bumpAlloc \<and> 2 \<le> length (collectCallSites exThree 7) \<and>
   sitesHaveArgs exArgSize exThree 7 \<and> length (collectCallSites exThree 7) < 2 ^ 31 \<and>
   targetsInside exThree \<and>
   (\<exists>F' u M F1 Orig Ret Ps pre w inc uc sw ub cases.
           mergeCallSites bumpAlloc bumpAlloc exArgSize exThree 7 = Some (F', Some u)
         \<and> splitLoop bumpAlloc bumpAlloc M (collectCallSites exThree 7) (exThree @ [(M, [])], Map.empty, []) = Some (F1, Orig, Ret)
         \<and> map Orig (collectCallSites exThree 7) = map Some Ps
         \<and> map_of F' M =
               Some (pre @ [Instr w (PHI inc), uc, Instr sw (Switch (VInstr w) ub cases)])
         \<and> set (predecessors F' M) = set Ps
         \<and> entersByCase (predecessors F' M) inc cases)"
proof -
  have h1: "wellFormed exThree" by code_simp
  have h2: "2 \<le> length (collectCallSites exThree 7)" by code_simp
  have h3: "sitesHaveArgs exArgSize exThree 7" by code_simp
  have "length (collectCallSites exThree 7) = 3" by code_simp
  then have h4: "length (collectCallSites exThree 7) < 2 ^ 31" by simp
  have h5: "targetsInside exThree" by code_simp
  from mergeCallSites_default_not_taken [OF h1 freshAlloc_bumpAlloc freshAlloc_bumpAlloc h2 h3 h4 h5]
    h1 h2 h3 h4 h5 freshAlloc_bumpAlloc
  show ?thesis by (intro conjI)
qed

section \<open>What a merge keeps\<close>

lemma collectCallSites_member:
  assumes "distinct (iids F)" "i \<in> set (instrs F)"
  shows "iid i \<in> set (collectCallSites F T) \<longleftrightarrow> isCallSiteOf T i"
proof
  assume "iid i \<in> set (collectCallSites F T)"
  with assms show "isCallSiteOf T i" by (rule site_of_id)
next
  assume "isCallSiteOf T i"
  with assms(2) show "iid i \<in> set (collectCallSites F T)" by (simp add: collectCallSites_def)
qed

lemma mergeOutcome_kept:
  assumes O: "mergeOutcome nb ni arg_size F T cs M F1 Orig Ret Ps Rs Ga Gb phis u w sw ub extra"
  shows "othersKept cs u F
           (cleanFunc cs u Ga
              @ (M, mergedBlock cs u w sw ub T phis (map (\<lambda>p. VInstr (iid p)) phis) Ret)
              # cleanFunc cs u Gb @ extra)"
proof -
  let ?mb = "mergedBlock cs u w sw ub T phis (map (\<lambda>p. VInstr (iid p)) phis) Ret"
  let ?F' = "cleanFunc cs u Ga @ (M, ?mb) # cleanFunc cs u Gb @ extra"
  note O' = O [unfolded mergeOutcome_def]
  from O' have inv: "splitInv M (F @ [(M, [])]) cs [] Ps Rs (F1, Orig, Ret)"
    and F1: "F1 = Ga @ (M, []) # Gb"
    by - ((elim conjE, assumption)+)
  note I = inv [unfolded splitInv_def prod.case append_Nil2]
  from I have calls: "\<forall>i. isCallInst (kind i) \<longrightarrow>
                         (i \<in> set (instrs F1) \<longleftrightarrow> i \<in> set (instrs (F @ [(M, [])])))"
    and bF1: "set (bids F1) = set (bids (F @ [(M, [])])) \<union> set Rs"
    and iF1: "set (iids (F @ [(M, [])])) \<subseteq> set (iids F1)"
    by - ((elim conjE, assumption)+)
  have b: "b \<in> set (bids ?F')" if "b \<in> set (bids F)" for b
  proof -
    from that bF1 have "b \<in> set (bids F1)" by simp
    then show ?thesis unfolding F1 by auto
  qed
  have i: "iid i \<in> set (iids ?F') \<and>
           (isCallInst (kind i) \<longrightarrow> mapInstr (mapOperands (substSites cs u)) i \<in> set (instrs ?F'))"
    if mem: "i \<in> set (instrs F)" and ncs: "iid i \<notin> set cs" for i
  proof
    from mem have "iid i \<in> set (iids F)" unfolding iid_instrs [symmetric] by (rule imageI)
    with iF1 have "iid i \<in> set (iids F1)" by (auto simp: iids_append_empty)
    then have "iid i \<in> set (iids Ga) \<union> set (iids Gb)" unfolding F1 by simp
    with ncs show "iid i \<in> set (iids ?F')" by (auto simp: cleanFunc_iids)
  next
    show "isCallInst (kind i) \<longrightarrow> mapInstr (mapOperands (substSites cs u)) i \<in> set (instrs ?F')"
    proof
      assume c: "isCallInst (kind i)"
      from mem have "i \<in> set (instrs (F @ [(M, [])]))" by simp
      with calls c have "i \<in> set (instrs F1)" by blast
      then have "i \<in> set (instrs Ga) \<union> set (instrs Gb)" unfolding F1 by simp
      with ncs have "mapInstr (mapOperands (substSites cs u)) i
                       \<in> set (instrs (cleanFunc cs u Ga)) \<union> set (instrs (cleanFunc cs u Gb))"
        by (auto simp: cleanFunc_mem)
      then show "mapInstr (mapOperands (substSites cs u)) i \<in> set (instrs ?F')" by auto
    qed
  qed
  from b i show ?thesis unfolding othersKept_def list_all_iff by blast
qed

section \<open>mergeCallSites does not look at intrinsics\<close>




section \<open>A merge leaves a well-formed function\<close>

lemma enoughArgs_mapOperands [simp]: "enoughArgs a (mapOperands g k) = enoughArgs a k"
proof (cases k)
  case (Call cal args)
  then show ?thesis by (cases cal) auto
qed auto

lemma callsHaveArgs_sites:
  assumes di: "distinct (iids F)" and ca: "callsHaveArgs arg_size F"
  shows "sitesHaveArgs arg_size F T"
  unfolding sitesHaveArgs_def list_all_iff
proof
  fix c assume "c \<in> set (collectCallSites F T)"
  from collectCallSites_instr [OF this] obtain args
    where i: "Instr c (Call (Direct T) args) \<in> set (instrs F)" by blast
  from callArgs_of_instr [OF di i] have "callArgs F c = args" .
  moreover from ca i have "enoughArgs arg_size (kind (Instr c (Call (Direct T) args)))"
    unfolding callsHaveArgs_def list_all_iff by blast
  ultimately show "arg_size T \<le> length (callArgs F c)" by simp
qed

lemma mergeOutcome_blocks:
  assumes O: "mergeOutcome nb ni arg_size F T cs M F1 Orig Ret Ps Rs Ga Gb phis u w sw ub extra"
    and mem: "(b, is) \<in> set Ga \<union> set Gb"
  shows "\<exists>t. getTerminator is = Some t \<and> iid t \<notin> set cs"
proof -
  note O' = O [unfolded mergeOutcome_def]
  from O' have inv: "splitInv M (F @ [(M, [])]) cs [] Ps Rs (F1, Orig, Ret)"
    and F1: "F1 = Ga @ (M, []) # Gb"
    by - ((elim conjE, assumption)+)
  note I = inv [unfolded splitInv_def prod.case append_Nil2]
  from I have db: "distinct (bids F1)"
    and tm: "\<forall>(b, is) \<in> set F1. b \<noteq> M \<longrightarrow> getTerminator is \<noteq> None"
    and calls: "\<forall>i \<in> set (instrs F1). iid i \<in> set cs \<longrightarrow> isCallInst (kind i)"
    by - ((elim conjE, assumption)+)
  from mem have bF1: "(b, is) \<in> set F1" unfolding F1 by auto
  from mem db have bM: "b \<noteq> M" unfolding F1 by (auto dest: mem_bids)
  from tm bF1 bM obtain t where t: "getTerminator is = Some t" by blast
  then have "t \<in> set is" and tt: "isTerminator (kind t)"
    by (auto simp: getTerminator_def split: if_splits)
  with bF1 have "t \<in> set (instrs F1)" by (auto intro: mem_instrs)
  with calls tt isCallInst_not_Terminator have "iid t \<notin> set cs" by blast
  with t show ?thesis by blast
qed

lemma list_all_cleanFunc_terminators:
  assumes "\<And>b is. (b, is) \<in> set G \<Longrightarrow> \<exists>t. getTerminator is = Some t \<and> iid t \<notin> set cs"
  shows "list_all (\<lambda>(b, is). getTerminator is \<noteq> None) (cleanFunc cs u G)"
  unfolding list_all_iff cleanFunc_def
proof
  fix x assume "x \<in> set (map (\<lambda>(b, is). (b, cleanBlock cs u is)) G)"
  then obtain b "is" where x: "x = (b, cleanBlock cs u is)" and m: "(b, is) \<in> set G" by auto
  from assms [OF m] obtain t where "getTerminator is = Some t" "iid t \<notin> set cs" by blast
  from getTerminator_cleanBlock [OF this] x
  show "case x of (b, is) \<Rightarrow> getTerminator is \<noteq> None" by simp
qed

lemma mergeOutcome_ids:
  assumes O: "mergeOutcome nb ni arg_size F T cs M F1 Orig Ret Ps Rs Ga Gb phis u w sw ub extra"
  shows "set cs \<subseteq> set (iids F1)" and "iid ` set phis \<inter> set cs = {}"
    and "filter (\<lambda>x. x \<notin> set cs) (map iid phis) = map iid phis"
proof -
  note O' = O [unfolded mergeOutcome_def]
  from O' have inv: "splitInv M (F @ [(M, [])]) cs [] Ps Rs (F1, Orig, Ret)"
    and dis: "set (map iid phis) \<inter> set (iids F1) = {}"
    by - ((elim conjE, assumption)+)
  from inv [unfolded splitInv_def prod.case append_Nil2]
  have ord: "filter (\<lambda>x. x \<in> set cs) (iids F1) = cs"
    by - ((elim conjE, assumption)+)
  have "set (filter (\<lambda>x. x \<in> set cs) (iids F1)) \<subseteq> set (iids F1)" by (rule filter_is_subset)
  then show a: "set cs \<subseteq> set (iids F1)" unfolding ord .
  with dis show b: "iid ` set phis \<inter> set cs = {}" by auto
  then show "filter (\<lambda>x. x \<notin> set cs) (map iid phis) = map iid phis"
    by (auto simp: filter_id_conv)
qed

lemma mergeOutcome_wellFormed:
  assumes O: "mergeOutcome nb ni arg_size F T cs M F1 Orig Ret Ps Rs Ga Gb phis u w sw ub extra"
  shows "wellFormed (cleanFunc cs u Ga
             @ (M, mergedBlock cs u w sw ub T phis (map (\<lambda>p. VInstr (iid p)) phis) Ret)
             # cleanFunc cs u Gb @ extra)"
proof -
  let ?mb = "mergedBlock cs u w sw ub T phis (map (\<lambda>p. VInstr (iid p)) phis) Ret"
  let ?F' = "cleanFunc cs u Ga @ (M, ?mb) # cleanFunc cs u Gb @ extra"
  define A where "A = filter (\<lambda>x. x \<notin> set cs) (iids Ga)"
  define B where "B = filter (\<lambda>x. x \<notin> set cs) (iids Gb)"
  define Q where "Q = map iid phis"
  note O' = O [unfolded mergeOutcome_def]
  from O' have inv: "splitInv M (F @ [(M, [])]) cs [] Ps Rs (F1, Orig, Ret)"
    and F1: "F1 = Ga @ (M, []) # Gb"
    and dph: "distinct (map iid phis)"
    and dis: "set (map iid phis) \<inter> set (iids F1) = {}"
    and u: "u \<notin> set (iids F1) \<union> iid ` set phis"
    and w: "w \<notin> insert u (set (iids (cleanFunc cs u (Ga @ (M, phis) # Gb))))"
    and sw: "sw \<notin> {u, w} \<union> set (iids (cleanFunc cs u (Ga @ (M, phis) # Gb))) \<union> set (iids extra)"
    and ex: "(extra = [] \<and> ub \<in> set (bids F1) \<and> ub \<noteq> M) \<or>
             (\<exists>x. extra = [(ub, [Instr x Unreachable])] \<and> ub \<notin> set (bids F1) \<and>
                  x \<notin> {u, w} \<union> set (iids (cleanFunc cs u (Ga @ (M, phis) # Gb))))"
    by - ((elim conjE, assumption)+)
  note I = inv [unfolded splitInv_def prod.case append_Nil2]
  from I have db: "distinct (bids F1)" and di: "distinct (iids F1)"
    by - ((elim conjE, assumption)+)
  have ids: "iids (cleanFunc cs u (Ga @ (M, phis) # Gb)) = A @ Q @ B"
    by (simp add: cleanFunc_iids cleanBlock_ids mergeOutcome_ids(3) [OF O] A_def B_def Q_def)
  have AB: "set A \<union> set B \<subseteq> set (iids F1)" unfolding A_def B_def F1 by auto
  have dAB: "distinct (A @ B)"
  proof -
    have "A @ B = filter (\<lambda>x. x \<notin> set cs) (iids F1)" unfolding A_def B_def F1 by simp
    then show ?thesis using di by simp
  qed
  have dQ: "distinct Q" and QF: "set Q \<inter> set (iids F1) = {}" using dph dis by (simp_all add: Q_def)
  have uA: "u \<notin> set A \<union> set B \<union> set Q" using u AB by (auto simp: Q_def)
  have wA: "w \<notin> insert u (set A \<union> set B \<union> set Q)" using w unfolding ids by auto
  have swA: "sw \<notin> {u, w} \<union> (set A \<union> set B \<union> set Q) \<union> set (iids extra)"
    using sw unfolding ids by auto
  have mbi: "map iid ?mb = Q @ [w, u, sw]" by (simp add: mergedBlock_def Q_def comp_def)
  have idsF': "iids ?F' = A @ (Q @ [w, u, sw]) @ B @ iids extra"
    by (simp add: cleanFunc_iids A_def B_def mbi)
  have 1: "distinct (bids ?F')"
  proof -
    have e: "bids ?F' = bids F1 @ bids extra" unfolding F1 by simp
    from ex have "distinct (bids extra) \<and> set (bids extra) \<inter> set (bids F1) = {}" by auto
    with db show ?thesis unfolding e by auto
  qed
  have dcore: "distinct (A @ (Q @ [w, u, sw]) @ B)"
    using dAB dQ QF AB uA wA swA by auto
  have 2: "distinct (iids ?F')"
  proof (cases "extra = []")
    case True
    with dcore show ?thesis unfolding idsF' by simp
  next
    case False
    with ex obtain x where e: "extra = [(ub, [Instr x Unreachable])]"
      and x: "x \<notin> {u, w} \<union> set (iids (cleanFunc cs u (Ga @ (M, phis) # Gb)))" by blast
    from x have "x \<notin> {u, w} \<union> (set A \<union> set B \<union> set Q)" unfolding ids by auto
    moreover from swA e have "sw \<noteq> x" by auto
    ultimately have "x \<notin> set (A @ (Q @ [w, u, sw]) @ B)" by auto
    with dcore have "distinct ((A @ (Q @ [w, u, sw]) @ B) @ [x])" by simp
    moreover have "iids extra = [x]" using e by simp
    ultimately show ?thesis unfolding idsF' by simp
  qed
  have ta: "list_all (\<lambda>(b, is). getTerminator is \<noteq> None) (cleanFunc cs u Ga)"
  proof (rule list_all_cleanFunc_terminators)
    fix b "is" assume "(b, is) \<in> set Ga"
    then have "(b, is) \<in> set Ga \<union> set Gb" by simp
    then show "\<exists>t. getTerminator is = Some t \<and> iid t \<notin> set cs"
      by (rule mergeOutcome_blocks [OF O])
  qed
  have tb: "list_all (\<lambda>(b, is). getTerminator is \<noteq> None) (cleanFunc cs u Gb)"
  proof (rule list_all_cleanFunc_terminators)
    fix b "is" assume "(b, is) \<in> set Gb"
    then have "(b, is) \<in> set Ga \<union> set Gb" by simp
    then show "\<exists>t. getTerminator is = Some t \<and> iid t \<notin> set cs"
      by (rule mergeOutcome_blocks [OF O])
  qed
  have tm: "getTerminator ?mb \<noteq> None" by (simp add: mergedBlock_def getTerminator_def)
  have te: "list_all (\<lambda>(b, is). getTerminator is \<noteq> None) extra"
    using ex by (auto simp: getTerminator_def)
  have 3: "list_all (\<lambda>(b, is). getTerminator is \<noteq> None) ?F'"
    using ta tb tm te by simp
  from 1 2 3 show ?thesis unfolding wellFormed_def by (intro conjI)
qed

lemma mergeOutcome_calls:
  assumes O: "mergeOutcome nb ni arg_size F T cs M F1 Orig Ret Ps Rs Ga Gb phis u w sw ub extra"
    and mem: "i' \<in> set (instrs (cleanFunc cs u Ga
             @ (M, mergedBlock cs u w sw ub T phis (map (\<lambda>p. VInstr (iid p)) phis) Ret)
             # cleanFunc cs u Gb @ extra))"
    and call: "isCallInst (kind i')"
  shows "(\<exists>args. i' = Instr u (Call (Direct T) args) \<and> length args = arg_size T) \<or>
         (\<exists>i \<in> set (instrs F). iid i \<notin> set cs \<and> i' = mapInstr (mapOperands (substSites cs u)) i)"
proof -
  note O' = O [unfolded mergeOutcome_def]
  from O' have inv: "splitInv M (F @ [(M, [])]) cs [] Ps Rs (F1, Orig, Ret)"
    and F1: "F1 = Ga @ (M, []) # Gb"
    and kinds: "map kind phis = map (\<lambda>j. PHI (zip (map (\<lambda>c. callArgs F c ! j) cs) Ps)) [0..<arg_size T]"
    and ex: "(extra = [] \<and> ub \<in> set (bids F1) \<and> ub \<noteq> M) \<or>
             (\<exists>x. extra = [(ub, [Instr x Unreachable])] \<and> ub \<notin> set (bids F1) \<and>
                  x \<notin> {u, w} \<union> set (iids (cleanFunc cs u (Ga @ (M, phis) # Gb))))"
    by - ((elim conjE, assumption)+)
  note I = inv [unfolded splitInv_def prod.case append_Nil2]
  from I have calls: "\<forall>i. isCallInst (kind i) \<longrightarrow>
                         (i \<in> set (instrs F1) \<longleftrightarrow> i \<in> set (instrs (F @ [(M, [])])))"
    by - ((elim conjE, assumption)+)
  let ?g = "mapInstr (mapOperands (substSites cs u))"
  let ?args = "map (substSites cs u) (map (\<lambda>p. VInstr (iid p)) phis)"
  from mem consider
      (clean) "i' \<in> set (instrs (cleanFunc cs u Ga)) \<union> set (instrs (cleanFunc cs u Gb))"
    | (phi) "i' \<in> ?g ` set phis" | (w) "i' = Instr w (PHI (whereIncoming 0 Ret))"
    | (u) "i' = Instr u (Call (Direct T) ?args)"
    | (sw) "i' = Instr sw (Switch (VInstr w) ub (switchCases 0 Ret))"
    | (extra) "i' \<in> set (instrs extra)"
    by (auto simp: mergedBlock_def)
  then show ?thesis
  proof cases
    case clean
    then obtain i where i: "i \<in> set (instrs Ga) \<union> set (instrs Gb)" "iid i \<notin> set cs" "i' = ?g i"
      by (auto simp: cleanFunc_mem)
    from i(3) call have "isCallInst (kind i)" by simp
    moreover from i(1) have "i \<in> set (instrs F1)" unfolding F1 by auto
    ultimately have "i \<in> set (instrs F)" using calls by auto
    with i show ?thesis by blast
  next
    case phi
    then obtain p where p: "p \<in> set phis" "i' = ?g p" by blast
    from phis_are_PHI [OF kinds p(1)] p(2) have "isPHI (kind i')" by simp
    with call isCallInst_not_PHI show ?thesis by blast
  next
    case w with call show ?thesis by simp
  next
    case u
    have "length ?args = arg_size T" using arg_cong [OF kinds, of length] by simp
    with u show ?thesis by blast
  next
    case sw with call show ?thesis by simp
  next
    case extra with ex call show ?thesis by auto
  qed
qed

lemma mergeOutcome_callsHaveArgs:
  assumes O: "mergeOutcome nb ni arg_size F T cs M F1 Orig Ret Ps Rs Ga Gb phis u w sw ub extra"
    and ca: "callsHaveArgs arg_size F"
  shows "callsHaveArgs arg_size (cleanFunc cs u Ga
             @ (M, mergedBlock cs u w sw ub T phis (map (\<lambda>p. VInstr (iid p)) phis) Ret)
             # cleanFunc cs u Gb @ extra)"
  unfolding callsHaveArgs_def list_all_iff
proof
  fix i' assume mem: "i' \<in> set (instrs (cleanFunc cs u Ga
             @ (M, mergedBlock cs u w sw ub T phis (map (\<lambda>p. VInstr (iid p)) phis) Ret)
             # cleanFunc cs u Gb @ extra))"
  show "enoughArgs arg_size (kind i')"
  proof (cases "isCallInst (kind i')")
    case False
    then show ?thesis by (cases "kind i'") auto
  next
    case True
    from mergeOutcome_calls [OF O mem True] show ?thesis
    proof (elim disjE exE bexE conjE)
      fix args assume "i' = Instr u (Call (Direct T) args)" "length args = arg_size T"
      then show ?thesis by simp
    next
      fix i assume i: "i \<in> set (instrs F)" "i' = mapInstr (mapOperands (substSites cs u)) i"
      with ca have "enoughArgs arg_size (kind i)" unfolding callsHaveArgs_def list_all_iff by blast
      with i(2) show ?thesis by simp
    qed
  qed
qed

section \<open>The groups of runOnFunction\<close>

lemma map_of_pushInvoker:
  "map_of (pushInvoker f c m) =
     (map_of m)(f \<mapsto> (case map_of m f of None \<Rightarrow> [] | Some cs \<Rightarrow> cs) @ [c])"
  by (simp add: pushInvoker_def map_of_map_set split: option.splits)

lemma pushInvoker_sorted:
  "sorted_wrt (<) (map fst m) \<Longrightarrow> sorted_wrt (<) (map fst (pushInvoker f c m))"
  by (simp add: pushInvoker_def map_set_sorted split: option.splits)

lemma groupLoop_sorted:
  "sorted_wrt (<) (map fst m) \<Longrightarrow> sorted_wrt (<) (map fst (groupLoop isIntrinsic is m))"
  by (induction "is" arbitrary: m) (auto simp: pushInvoker_sorted split: option.splits)

lemma isCallSiteOf_iff:
  "isCallSiteOf T i \<longleftrightarrow>
     isCallInst (kind i) \<and> \<not> isInlineAsm (kind i) \<and> getCalledFunction (kind i) = Some T"
  by (simp add: isCallSiteOf_def)

lemma groupLoop_map_of:
  "map_of (groupLoop isIntrinsic is m) T =
     (if isIntrinsic T \<or> filter (isCallSiteOf T) is = [] then map_of m T
      else Some ((case map_of m T of None \<Rightarrow> [] | Some cs \<Rightarrow> cs)
                   @ map iid (filter (isCallSiteOf T) is)))"
proof (induction "is" arbitrary: m)
  case Nil
  show ?case by simp
next
  case (Cons I Is)
  show ?case
  proof (cases "isCallInst (kind I) \<and> \<not> isInlineAsm (kind I)")
    case False
    then have n: "\<not> isCallSiteOf T I" by (auto simp: isCallSiteOf_iff)
    from False have "groupLoop isIntrinsic (I # Is) m = groupLoop isIntrinsic Is m" by auto
    with n Cons.IH [of m] show ?thesis by simp
  next
    case True
    show ?thesis
    proof (cases "getCalledFunction (kind I)")
      case None
      then have n: "\<not> isCallSiteOf T I" by (simp add: isCallSiteOf_iff)
      from True None have "groupLoop isIntrinsic (I # Is) m = groupLoop isIntrinsic Is m" by simp
      with n Cons.IH [of m] show ?thesis by simp
    next
      case (Some f)
      with True have s: "isCallSiteOf T I \<longleftrightarrow> T = f" by (auto simp: isCallSiteOf_iff)
      show ?thesis
      proof (cases "isIntrinsic f")
        case intr: True
        with True Some have e: "groupLoop isIntrinsic (I # Is) m = groupLoop isIntrinsic Is m"
          by simp
        show ?thesis
        proof (cases "T = f")
          case True
          with intr Cons.IH [of m] show ?thesis unfolding e by simp
        next
          case False
          with s have "\<not> isCallSiteOf T I" by simp
          with Cons.IH [of m] show ?thesis unfolding e by simp
        qed
      next
        case nintr: False
        with True Some have e: "groupLoop isIntrinsic (I # Is) m
                                  = groupLoop isIntrinsic Is (pushInvoker f (iid I) m)"
          by simp
        show ?thesis
        proof (cases "T = f")
          case True
          with s have sI: "isCallSiteOf T I" by simp
          from True have mp: "map_of (pushInvoker f (iid I) m) T
                = Some ((case map_of m T of None \<Rightarrow> [] | Some cs \<Rightarrow> cs) @ [iid I])"
            by (simp add: map_of_pushInvoker)
          from nintr True have nT: "\<not> isIntrinsic T" by simp
          show ?thesis
            unfolding e Cons.IH [of "pushInvoker f (iid I) m"] mp using sI nT by simp
        next
          case False
          with s have nI: "\<not> isCallSiteOf T I" by simp
          from False have mp: "map_of (pushInvoker f (iid I) m) T = map_of m T"
            by (simp add: map_of_pushInvoker)
          show ?thesis
            unfolding e Cons.IH [of "pushInvoker f (iid I) m"] mp using nI by simp
        qed
      qed
    qed
  qed
qed

lemma groups_mem:
  "(T, cs) \<in> set (groupLoop isIntrinsic (instrs F) []) \<longleftrightarrow>
     \<not> isIntrinsic T \<and> collectCallSites F T \<noteq> [] \<and> cs = collectCallSites F T"
proof -
  have "sorted_wrt (<) (map fst (groupLoop isIntrinsic (instrs F) []))"
    by (rule groupLoop_sorted) simp
  then have d: "distinct (map fst (groupLoop isIntrinsic (instrs F) []))"
    by (rule distinct_of_sorted_keys)
  have "(T, cs) \<in> set (groupLoop isIntrinsic (instrs F) [])
          \<longleftrightarrow> map_of (groupLoop isIntrinsic (instrs F) []) T = Some cs"
    using map_of_eq_Some_iff [OF d] by simp
  also have "\<dots> \<longleftrightarrow> \<not> isIntrinsic T \<and> collectCallSites F T \<noteq> [] \<and> cs = collectCallSites F T"
    unfolding groupLoop_map_of by (auto simp: collectCallSites_def)
  finally show ?thesis .
qed

lemma groups_distinct: "distinct (map fst (groupLoop isIntrinsic (instrs F) []))"
proof -
  have "sorted_wrt (<) (map fst (groupLoop isIntrinsic (instrs F) []))"
    by (rule groupLoop_sorted) simp
  then show ?thesis by (rule distinct_of_sorted_keys)
qed

section \<open>The loop over the groups\<close>

lemma isCallSiteOf_mapInstr [simp]:
  "isCallSiteOf T (mapInstr (mapOperands g) i) = isCallSiteOf T i"
  by (simp add: isCallSiteOf_iff)

lemma distinct_collectCallSites: "distinct (iids G) \<Longrightarrow> distinct (collectCallSites G T)"
  by (simp add: collectCallSites_def iids_def distinct_map_filter)

lemma length_le_of_subset:
  assumes "distinct xs" "set xs \<subseteq> set ys"
  shows "length xs \<le> length ys"
proof -
  have "length xs = card (set xs)" using assms(1) by (simp add: distinct_card)
  also have "\<dots> \<le> card (set ys)" using assms(2) by (intro card_mono) simp_all
  also have "\<dots> \<le> length ys" by (rule card_length)
  finally show ?thesis .
qed

lemma othersKept_call:
  assumes k: "othersKept cs u G G1" and i: "i \<in> set (instrs G)" and c: "isCallInst (kind i)"
    and n: "iid i \<notin> set cs"
  shows "mapInstr (mapOperands (substSites cs u)) i \<in> set (instrs G1)"
  using assms unfolding othersKept_def list_all_iff by blast

lemma othersKept_bids: "othersKept cs u G G1 \<Longrightarrow> set (bids G) \<subseteq> set (bids G1)"
  unfolding othersKept_def list_all_iff by blast

lemma isCallSiteOf_call: "isCallSiteOf T i \<Longrightarrow> isCallInst (kind i)"
  by (simp add: isCallSiteOf_iff)

lemma other_sites_kept:
  assumes k: "othersKept (collectCallSites G T) u G G1" and di: "distinct (iids G)"
    and ne: "T' \<noteq> T"
  shows "set (collectCallSites G T') \<subseteq> set (collectCallSites G1 T')"
proof
  fix x assume "x \<in> set (collectCallSites G T')"
  then obtain i where i: "i \<in> set (instrs G)" "isCallSiteOf T' i" "iid i = x"
    unfolding collectCallSites_def by auto
  have "\<not> isCallSiteOf T i" using i(2) ne by (auto simp: isCallSiteOf_iff)
  then have "iid i \<notin> set (collectCallSites G T)"
    using collectCallSites_member [OF di i(1)] by simp
  from othersKept_call [OF k i(1) isCallSiteOf_call [OF i(2)] this]
  have "mapInstr (mapOperands (substSites (collectCallSites G T) u)) i \<in> set (instrs G1)" .
  moreover have "isCallSiteOf T' (mapInstr (mapOperands (substSites (collectCallSites G T) u)) i)"
    using i(2) by simp
  ultimately have "mapInstr (mapOperands (substSites (collectCallSites G T) u)) i
                     \<in> set (filter (isCallSiteOf T') (instrs G1))" by simp
  then have "iid (mapInstr (mapOperands (substSites (collectCallSites G T) u)) i)
               \<in> iid ` set (filter (isCallSiteOf T') (instrs G1))" by (rule imageI)
  then have "iid (mapInstr (mapOperands (substSites (collectCallSites G T) u)) i)
               \<in> set (collectCallSites G1 T')" unfolding collectCallSites_def set_map .
  with i(3) show "x \<in> set (collectCallSites G1 T')" by simp
qed

lemma changesOnly_id: "changesOnly E (\<lambda>v. v)"
  by (simp add: changesOnly_def)

lemma changesOnly_comp:
  assumes "changesOnly E g" "set cs \<subseteq> E"
  shows "changesOnly E (g \<circ> substSites cs u)"
  unfolding changesOnly_def
proof (intro allI impI)
  fix v assume d: "(g \<circ> substSites cs u) v \<noteq> v"
  show "\<exists>x \<in> E. v = VInstr x"
  proof (cases "substSites cs u v = v")
    case True
    with d have "g v \<noteq> v" by simp
    with assms(1) show ?thesis unfolding changesOnly_def by blast
  next
    case False
    then obtain x where "v = VInstr x" "x \<in> set cs"
      by (auto simp: substSites_def split: val.splits if_splits)
    with assms(2) show ?thesis by blast
  qed
qed

lemma keptUpTo_self: "i \<in> set (instrs G) \<Longrightarrow> keptUpTo E i G"
  unfolding keptUpTo_def using changesOnly_id [of E] mapInstr_mapOperands_id [of i] by metis

lemma keptUpTo_step:
  assumes "keptUpTo E (mapInstr (mapOperands (substSites cs u)) i) G'" "set cs \<subseteq> E"
  shows "keptUpTo E i G'"
proof -
  from assms(1) obtain g where g: "changesOnly E g"
    "mapInstr (mapOperands g) (mapInstr (mapOperands (substSites cs u)) i) \<in> set (instrs G')"
    unfolding keptUpTo_def by blast
  have "mapInstr (mapOperands g) (mapInstr (mapOperands (substSites cs u)) i)
          = mapInstr (mapOperands (g \<circ> substSites cs u)) i"
    by (cases i) (simp add: mapOperands_comp)
  with g(2) changesOnly_comp [OF g(1) assms(2)] show ?thesis unfolding keptUpTo_def by metis
qed

section \<open>The loop over the groups, continued\<close>

lemma mergeLoop_skip:
  "\<not> 1 < length cs0 \<Longrightarrow>
   mergeLoop nb ni arg_size ((T, cs0) # KVs) (G, Mod) = mergeLoop nb ni arg_size KVs (G, Mod)"
  by simp

lemma mergeLoop_merge:
  "1 < length cs0 \<Longrightarrow> mergeCallSites nb ni arg_size G T = Some (G1, r) \<Longrightarrow>
   mergeLoop nb ni arg_size ((T, cs0) # KVs) (G, Mod) = mergeLoop nb ni arg_size KVs (G1, True)"
  by simp

lemma mergeLoop_inv:
  assumes fb: "freshAlloc nb" and fi: "freshAlloc ni"
  shows "wellFormed G \<Longrightarrow> callsHaveArgs arg_size G \<Longrightarrow> distinct (map fst KVs) \<Longrightarrow>
     (\<forall>i' \<in> set (instrs G). \<forall>T \<in> fst ` set KVs. isCallSiteOf T i' \<longrightarrow> iid i' \<in> E) \<Longrightarrow>
     (\<forall>(T, cs) \<in> set KVs. 1 < length cs \<longrightarrow> 2 \<le> length (collectCallSites G T)) \<Longrightarrow>
     \<exists>G'. mergeLoop nb ni arg_size KVs (G, Mod)
             = Some (G', Mod \<or> list_ex (\<lambda>(T, cs). 1 < length cs) KVs)
        \<and> wellFormed G' \<and> callsHaveArgs arg_size G' \<and> set (bids G) \<subseteq> set (bids G')
        \<and> (if list_ex (\<lambda>(T, cs). 1 < length cs) KVs
            then \<not> set (bids G') \<subseteq> set (bids G) else G' = G)
        \<and> (\<forall>i \<in> set (instrs G). isCallInst (kind i) \<longrightarrow>
              (\<forall>T \<in> fst ` set KVs. \<not> isCallSiteOf T i) \<longrightarrow> keptUpTo E i G')"
proof (induction KVs arbitrary: G Mod)
  case Nil
  show ?case using Nil.prems(1,2) by (simp add: keptUpTo_self)
next
  case (Cons kv KVs)
  obtain T cs0 where kv: "kv = (T, cs0)" by (cases kv)
  note wf = Cons.prems(1) and ca = Cons.prems(2)
  from Cons.prems(3) have dk: "distinct (map fst KVs)" and TK: "T \<notin> fst ` set KVs"
    unfolding kv by simp_all
  note bwd = Cons.prems(4) and h2 = Cons.prems(5)
  from wf have di: "distinct (iids G)" by (simp add: wellFormed_def)
  show ?case
  proof (cases "1 < length cs0")
    case False
    have bwd': "\<forall>i' \<in> set (instrs G). \<forall>T \<in> fst ` set KVs. isCallSiteOf T i' \<longrightarrow> iid i' \<in> E"
      using bwd unfolding kv by simp
    have h2': "\<forall>(T, cs) \<in> set KVs. 1 < length cs \<longrightarrow> 2 \<le> length (collectCallSites G T)"
      using h2 unfolding kv by simp
    from Cons.IH [OF wf ca dk bwd' h2', of Mod] obtain G'
      where G': "mergeLoop nb ni arg_size KVs (G, Mod)
                   = Some (G', Mod \<or> list_ex (\<lambda>(T, cs). 1 < length cs) KVs)"
        "wellFormed G'" "callsHaveArgs arg_size G'" "set (bids G) \<subseteq> set (bids G')"
        "if list_ex (\<lambda>(T, cs). 1 < length cs) KVs
            then \<not> set (bids G') \<subseteq> set (bids G) else G' = G"
        "\<forall>i \<in> set (instrs G). isCallInst (kind i) \<longrightarrow>
              (\<forall>T \<in> fst ` set KVs. \<not> isCallSiteOf T i) \<longrightarrow> keptUpTo E i G'"
      by blast
    have le: "list_ex (\<lambda>(T, cs). 1 < length cs) (kv # KVs)
                = list_ex (\<lambda>(T, cs). 1 < length cs) KVs"
      using False unfolding kv by simp
    have 1: "mergeLoop nb ni arg_size (kv # KVs) (G, Mod)
                = Some (G', Mod \<or> list_ex (\<lambda>(T, cs). 1 < length cs) (kv # KVs))"
      unfolding le unfolding kv mergeLoop_skip [OF False] by (rule G'(1))
    have 5: "if list_ex (\<lambda>(T, cs). 1 < length cs) (kv # KVs)
            then \<not> set (bids G') \<subseteq> set (bids G) else G' = G"
      unfolding le by (rule G'(5))
    have 6: "\<forall>i \<in> set (instrs G). isCallInst (kind i) \<longrightarrow>
              (\<forall>T \<in> fst ` set (kv # KVs). \<not> isCallSiteOf T i) \<longrightarrow> keptUpTo E i G'"
      using G'(6) by simp
    from 1 G'(2,3,4) 5 6 show ?thesis by blast
  next
    case True
    from h2 True have two: "2 \<le> length (collectCallSites G T)" unfolding kv by simp
    note sa = callsHaveArgs_sites [OF di ca, of T]
    from mergeCallSites_closed [OF wf fb fi two sa]
    obtain cs M F1 Orig Ret Ps Rs Ga Gb phis u w sw ub extra
      where O: "mergeOutcome nb ni arg_size G T cs M F1 Orig Ret Ps Rs Ga Gb phis u w sw ub extra"
      by blast
    define G1 where "G1 = cleanFunc cs u Ga
               @ (M, mergedBlock cs u w sw ub T phis (map (\<lambda>p. VInstr (iid p)) phis) Ret)
               # cleanFunc cs u Gb @ extra"
    note R = mergeOutcome_result [OF O, folded G1_def]
    have cs: "cs = collectCallSites G T" by (rule R(3))
    have wf1: "wellFormed G1" unfolding G1_def by (rule mergeOutcome_wellFormed [OF O])
    have ca1: "callsHaveArgs arg_size G1"
      unfolding G1_def by (rule mergeOutcome_callsHaveArgs [OF O ca])
    have kept: "othersKept (collectCallSites G T) u G G1"
      using mergeOutcome_kept [OF O] unfolding G1_def cs .
    have csE: "set (collectCallSites G T) \<subseteq> E"
    proof
      fix x assume "x \<in> set (collectCallSites G T)"
      then obtain i where i: "i \<in> set (instrs G)" "isCallSiteOf T i" "iid i = x"
        unfolding collectCallSites_def by auto
      with bwd show "x \<in> E" unfolding kv by auto
    qed
    have bwd1: "\<forall>i' \<in> set (instrs G1). \<forall>T' \<in> fst ` set KVs. isCallSiteOf T' i' \<longrightarrow> iid i' \<in> E"
    proof (intro ballI impI)
      fix i' T' assume i': "i' \<in> set (instrs G1)" and T': "T' \<in> fst ` set KVs"
        and s: "isCallSiteOf T' i'"
      from T' TK have ne: "T' \<noteq> T" by auto
      from mergeOutcome_calls [OF O i' [unfolded G1_def] isCallSiteOf_call [OF s]]
      show "iid i' \<in> E"
      proof (elim disjE exE bexE conjE)
        fix args assume "i' = Instr u (Call (Direct T) args)"
        with s ne show ?thesis by (simp add: isCallSiteOf_iff)
      next
        fix i assume i: "i \<in> set (instrs G)" "i' = mapInstr (mapOperands (substSites cs u)) i"
        with s have "isCallSiteOf T' i" by simp
        with bwd i(1) T' have "iid i \<in> E" unfolding kv by auto
        with i(2) show ?thesis by simp
      qed
    qed
    have h21: "\<forall>(T', cs') \<in> set KVs. 1 < length cs' \<longrightarrow> 2 \<le> length (collectCallSites G1 T')"
    proof (intro ballI, clarify)
      fix T' cs' assume m: "(T', cs') \<in> set KVs" and l: "1 < length cs'"
      from m have "T' \<in> fst ` set KVs" by force
      with TK have ne: "T' \<noteq> T" by auto
      from h2 m l have "2 \<le> length (collectCallSites G T')" unfolding kv by auto
      also have "\<dots> \<le> length (collectCallSites G1 T')"
        by (rule length_le_of_subset [OF distinct_collectCallSites [OF di]
              other_sites_kept [OF kept di ne]])
      finally show "2 \<le> length (collectCallSites G1 T')" .
    qed
    from Cons.IH [OF wf1 ca1 dk bwd1 h21, of True] obtain G'
      where G': "mergeLoop nb ni arg_size KVs (G1, True) = Some (G', True)"
        "wellFormed G'" "callsHaveArgs arg_size G'" "set (bids G1) \<subseteq> set (bids G')"
        "\<forall>i \<in> set (instrs G1). isCallInst (kind i) \<longrightarrow>
              (\<forall>T \<in> fst ` set KVs. \<not> isCallSiteOf T i) \<longrightarrow> keptUpTo E i G'"
      by auto
    have le: "list_ex (\<lambda>(T, cs). 1 < length cs) (kv # KVs)" using True unfolding kv by simp
    have 1: "mergeLoop nb ni arg_size (kv # KVs) (G, Mod)
                = Some (G', Mod \<or> list_ex (\<lambda>(T, cs). 1 < length cs) (kv # KVs))"
      using mergeLoop_merge [OF True R(1)] G'(1) le unfolding kv by simp
    have 4: "set (bids G) \<subseteq> set (bids G')" using othersKept_bids [OF kept] G'(4) by blast
    from O have MG: "M \<notin> set (bids G)" unfolding mergeOutcome_def
      by - ((elim conjE, assumption)+)
    have "M \<in> set (bids G1)" unfolding G1_def by simp
    with G'(4) MG have "\<not> set (bids G') \<subseteq> set (bids G)" by blast
    with le have 5: "if list_ex (\<lambda>(T, cs). 1 < length cs) (kv # KVs)
            then \<not> set (bids G') \<subseteq> set (bids G) else G' = G" by simp
    have 6: "\<forall>i \<in> set (instrs G). isCallInst (kind i) \<longrightarrow>
              (\<forall>T \<in> fst ` set (kv # KVs). \<not> isCallSiteOf T i) \<longrightarrow> keptUpTo E i G'"
    proof (intro ballI impI)
      fix i assume i: "i \<in> set (instrs G)" and c: "isCallInst (kind i)"
        and n: "\<forall>T \<in> fst ` set (kv # KVs). \<not> isCallSiteOf T i"
      from n have nT: "\<not> isCallSiteOf T i" and nK: "\<forall>T \<in> fst ` set KVs. \<not> isCallSiteOf T i"
        unfolding kv by simp_all
      from nT have ncs: "iid i \<notin> set (collectCallSites G T)"
        using collectCallSites_member [OF di i] by simp
      let ?j = "mapInstr (mapOperands (substSites (collectCallSites G T) u)) i"
      from othersKept_call [OF kept i c ncs] have j: "?j \<in> set (instrs G1)" .
      moreover have "isCallInst (kind ?j)" using c by simp
      moreover have "\<forall>T \<in> fst ` set KVs. \<not> isCallSiteOf T ?j" using nK by simp
      ultimately have "keptUpTo E ?j G'" using G'(5) by blast
      then show "keptUpTo E i G'" using csE by (rule keptUpTo_step)
    qed
    from 1 G'(2,3) 4 5 6 show ?thesis by blast
  qed
qed

section \<open>runOnFunction\<close>

lemma runOnFunction_of_mergeLoop:
  "mergeLoop nb ni arg_size (groupLoop isIntrinsic (instrs F) []) (F, False) = Some (G, b) \<Longrightarrow>
   runOnFunction nb ni arg_size isIntrinsic reg2mem F =
     Some (if b then \<lparr>func_of = reg2mem G, reg2mem_runs = [G], returned = True\<rparr>
           else \<lparr>func_of = G, reg2mem_runs = [], returned = False\<rparr>)"
  by (simp add: runOnFunction_def)

lemma groups_mergeable:
  "list_ex (\<lambda>(T, cs). 1 < length cs) (groupLoop isIntrinsic (instrs F) [])
     \<longleftrightarrow> (\<exists>T. \<not> isIntrinsic T \<and> 2 \<le> length (collectCallSites F T))"
proof
  assume "list_ex (\<lambda>(T, cs). 1 < length cs) (groupLoop isIntrinsic (instrs F) [])"
  then obtain T cs where m: "(T, cs) \<in> set (groupLoop isIntrinsic (instrs F) [])"
    and l: "1 < length cs" unfolding list_ex_iff by auto
  from m have "\<not> isIntrinsic T" "cs = collectCallSites F T" unfolding groups_mem by simp_all
  with l show "\<exists>T. \<not> isIntrinsic T \<and> 2 \<le> length (collectCallSites F T)" by auto
next
  assume "\<exists>T. \<not> isIntrinsic T \<and> 2 \<le> length (collectCallSites F T)"
  then obtain T where T: "\<not> isIntrinsic T" "2 \<le> length (collectCallSites F T)" by blast
  then have "collectCallSites F T \<noteq> []" by auto
  with T(1) have "(T, collectCallSites F T) \<in> set (groupLoop isIntrinsic (instrs F) [])"
    unfolding groups_mem by simp
  with T(2) show "list_ex (\<lambda>(T, cs). 1 < length cs) (groupLoop isIntrinsic (instrs F) [])"
    unfolding list_ex_iff by force
qed

lemma site_of_group_eligible:
  assumes "(T, cs) \<in> set (groupLoop isIntrinsic (instrs F) [])" "isCallSiteOf T i"
  shows "isEligible isIntrinsic (kind i)"
proof -
  from assms(1) have "\<not> isIntrinsic T" unfolding groups_mem by simp
  with assms(2) show ?thesis by (simp add: isEligible_def isCallSiteOf_iff)
qed

lemma runOnFunction_closed:
  assumes wf: "wellFormed F" and fb: "freshAlloc nb" and fi: "freshAlloc ni"
    and ca: "callsHaveArgs arg_size F"
  shows "\<exists>G. runOnFunction nb ni arg_size isIntrinsic reg2mem F =
               Some (if (\<exists>T. \<not> isIntrinsic T \<and> 2 \<le> length (collectCallSites F T))
                     then \<lparr>func_of = reg2mem G, reg2mem_runs = [G], returned = True\<rparr>
                     else \<lparr>func_of = G, reg2mem_runs = [], returned = False\<rparr>)
           \<and> wellFormed G
           \<and> (if (\<exists>T. \<not> isIntrinsic T \<and> 2 \<le> length (collectCallSites F T))
               then \<not> set (bids G) \<subseteq> set (bids F) else G = F)
           \<and> (\<forall>i \<in> set (instrs F). isCallInst (kind i) \<longrightarrow> \<not> isEligible isIntrinsic (kind i) \<longrightarrow>
                 keptUpTo (set (eligibleIds isIntrinsic F)) i G)"
proof -
  let ?KVs = "groupLoop isIntrinsic (instrs F) []"
  let ?E = "set (eligibleIds isIntrinsic F)"
  have bwd: "\<forall>i' \<in> set (instrs F). \<forall>T \<in> fst ` set ?KVs. isCallSiteOf T i' \<longrightarrow> iid i' \<in> ?E"
  proof (intro ballI impI)
    fix i' T assume i': "i' \<in> set (instrs F)" and T: "T \<in> fst ` set ?KVs"
      and s: "isCallSiteOf T i'"
    from T obtain cs where "(T, cs) \<in> set ?KVs" by force
    from site_of_group_eligible [OF this s] i'
    show "iid i' \<in> ?E" by (simp add: eligibleIds_def)
  qed
  have h2: "\<forall>(T, cs) \<in> set ?KVs. 1 < length cs \<longrightarrow> 2 \<le> length (collectCallSites F T)"
    by (auto simp: groups_mem)
  from mergeLoop_inv [OF fb fi wf ca groups_distinct bwd h2, of False]
  obtain G where G: "mergeLoop nb ni arg_size ?KVs (F, False)
                       = Some (G, list_ex (\<lambda>(T, cs). 1 < length cs) ?KVs)"
      "wellFormed G"
      "if list_ex (\<lambda>(T, cs). 1 < length cs) ?KVs
         then \<not> set (bids G) \<subseteq> set (bids F) else G = F"
      "\<forall>i \<in> set (instrs F). isCallInst (kind i) \<longrightarrow>
              (\<forall>T \<in> fst ` set ?KVs. \<not> isCallSiteOf T i) \<longrightarrow> keptUpTo ?E i G"
    by auto
  have 4: "\<forall>i \<in> set (instrs F). isCallInst (kind i) \<longrightarrow> \<not> isEligible isIntrinsic (kind i) \<longrightarrow>
                 keptUpTo ?E i G"
  proof (intro ballI impI)
    fix i assume i: "i \<in> set (instrs F)" "isCallInst (kind i)"
      and n: "\<not> isEligible isIntrinsic (kind i)"
    have "\<forall>T \<in> fst ` set ?KVs. \<not> isCallSiteOf T i"
    proof
      fix T assume "T \<in> fst ` set ?KVs"
      then obtain cs where "(T, cs) \<in> set ?KVs" by force
      with site_of_group_eligible n show "\<not> isCallSiteOf T i" by blast
    qed
    with G(4) i show "keptUpTo ?E i G" by blast
  qed
  from runOnFunction_of_mergeLoop [OF G(1)] G(2) G(3) 4
  show ?thesis unfolding groups_mergeable by blast
qed

section \<open>What runOnFunction returns\<close>

text \<open>
  Claim C7.  On a well-formed function whose direct calls pass at least as many arguments
  as their callees have parameters, \<open>runOnFunction\<close> returns; it returns true exactly when
  some callee that is not an intrinsic has at least two call sites in \<open>F\<close>, that is when
  some group of eligible call sites has at least two members.  In that case the demotion
  pass \<open>reg2mem\<close> is run exactly once, on the function the merges have left, which
  differs from \<open>F\<close>; otherwise it is not run and \<open>F\<close> is left as it is.
\<close>

theorem runOnFunction_returns_iff_merged:
  assumes "wellFormed F" "freshAlloc nb" "freshAlloc ni" "callsHaveArgs arg_size F"
  shows "\<exists>r. runOnFunction nb ni arg_size isIntrinsic reg2mem F = Some r
         \<and> (returned r \<longleftrightarrow> (\<exists>T. \<not> isIntrinsic T \<and> 2 \<le> length (collectCallSites F T)))
         \<and> length (reg2mem_runs r) = (if returned r then 1 else 0)
         \<and> reg2mem_runs r = (if returned r then [beforeDemotion r] else [])
         \<and> func_of r = (if returned r then reg2mem (beforeDemotion r) else F)
         \<and> (returned r \<longleftrightarrow> beforeDemotion r \<noteq> F)"
proof -
  from runOnFunction_closed [OF assms, of isIntrinsic reg2mem] obtain G
    where G: "runOnFunction nb ni arg_size isIntrinsic reg2mem F =
               Some (if (\<exists>T. \<not> isIntrinsic T \<and> 2 \<le> length (collectCallSites F T))
                     then \<lparr>func_of = reg2mem G, reg2mem_runs = [G], returned = True\<rparr>
                     else \<lparr>func_of = G, reg2mem_runs = [], returned = False\<rparr>)"
      "if (\<exists>T. \<not> isIntrinsic T \<and> 2 \<le> length (collectCallSites F T))
               then \<not> set (bids G) \<subseteq> set (bids F) else G = F"
    by blast
  show ?thesis
  proof (cases "\<exists>T. \<not> isIntrinsic T \<and> 2 \<le> length (collectCallSites F T)")
    case True
    with G(2) have "G \<noteq> F" by auto
    with True G(1) show ?thesis by (simp add: beforeDemotion_def)
  next
    case False
    with G(2) have "G = F" by simp
    with False G(1) show ?thesis by (simp add: beforeDemotion_def)
  qed
qed

theorem runOnFunction_returns_iff_merged_witness:
  "wellFormed exMixed \<and> freshAlloc bumpAlloc \<and> callsHaveArgs exArgSize exMixed \<and>
   (\<exists>r. runOnFunction bumpAlloc bumpAlloc exArgSize exIntrinsic9 id exMixed = Some r
         \<and> (returned r \<longleftrightarrow> (\<exists>T. \<not> exIntrinsic9 T \<and> 2 \<le> length (collectCallSites exMixed T)))
         \<and> length (reg2mem_runs r) = (if returned r then 1 else 0)
         \<and> reg2mem_runs r = (if returned r then [beforeDemotion r] else [])
         \<and> func_of r = (if returned r then id (beforeDemotion r) else exMixed)
         \<and> (returned r \<longleftrightarrow> beforeDemotion r \<noteq> exMixed))"
proof -
  have h1: "wellFormed exMixed" by code_simp
  have h2: "callsHaveArgs exArgSize exMixed" by code_simp
  from runOnFunction_returns_iff_merged [OF h1 freshAlloc_bumpAlloc freshAlloc_bumpAlloc h2,
      of exIntrinsic9 id]
    h1 h2 freshAlloc_bumpAlloc
  show ?thesis by (intro conjI)
qed

section \<open>The calls runOnFunction leaves alone\<close>




end
